theory Spec2Isabelle
  imports Complex_Main "HOL-Library.Word" "HOL-Library.Sublist"
begin

unbundle bit_operations_syntax

section \<open>Shared types\<close>

text \<open>
  Modelled from the spec: the enumeration \<open>obi_result_t\<close>, declared in a header that is
  not part of the sources.  Its constructors are the error taxonomy of the specification;
  they are the codes that the C files return.
\<close>

datatype obi_result =
    OBI_SUCCESS
  | OBI_ERROR_INVALID_INPUT
  | OBI_ERROR_VALIDATION_FAILED
  | OBI_ERROR_AUDIT_REQUIRED
  | OBI_ERROR_ZERO_TRUST_VIOLATION
  | OBI_ERROR_BUFFER_OVERFLOW
  | OBI_ERROR_NUMERICAL_INSTABILITY
  | OBI_ERROR_SINPHASE_VIOLATION
  | OBI_ERROR_NORMALIZATION_FAILED
  | OBI_ERROR_DFA_TRANSITION_FAILED
  | OBI_ERROR_SCHEMA_MISMATCH

datatype obi_governance_zone = OBI_ZONE_AUTONOMOUS | OBI_ZONE_WARNING | OBI_ZONE_GOVERNANCE

text \<open>
  Modelled from the spec: the struct \<open>obi_buffer\<close>, whose declaration is not in the sources.
  The field \<open>data\<close> holds the live bytes \<open>data[0 .. length)\<close> of the C buffer, so the C
  field \<open>length\<close> is \<open>length (data b)\<close>.  Bytes are \<open>char\<close>; \<open>of_char\<close> reads a byte as
  the unsigned value \<open>(uint8_t)c\<close>.  Pointer arguments of the C functions are modelled by
  their pointees, so a \<open>NULL\<close> argument is outside the model.
\<close>

record obi_buffer =
  data :: string
  max_size :: nat
  security_level :: nat
  normalized :: bool
  validated :: bool
  cost_value :: real
  governance_zone :: obi_governance_zone
  pattern_hash :: "8 word list"

text \<open>
  The C library functions \<open>isspace\<close>, \<open>isupper\<close> and \<open>tolower\<close> in the "C" locale:
  white space is space, TAB, LF, VT, FF and CR; only \<open>A\<close> to \<open>Z\<close> are folded.  A byte
  above \<open>0x7F\<close> is neither white space nor a letter and is left as it is.
\<close>

definition isspace :: "char \<Rightarrow> bool" where
  "isspace c = (of_char c = (32::nat) \<or> (9 \<le> (of_char c :: nat) \<and> (of_char c :: nat) \<le> 13))"

definition isupper :: "char \<Rightarrow> bool" where
  "isupper c = (65 \<le> (of_char c :: nat) \<and> (of_char c :: nat) \<le> 90)"

text \<open>The upper-case letters among the hexadecimal digits, \<open>A\<close> to \<open>F\<close>.\<close>

definition is_upper_hex :: "char \<Rightarrow> bool" where
  "is_upper_hex c = (65 \<le> (of_char c :: nat) \<and> (of_char c :: nat) \<le> 70)"

definition tolower :: "char \<Rightarrow> char" where
  "tolower c = (if isupper c then char_of (of_char c + (32::nat)) else c)"

text \<open>The 32-bit FNV-1a mixer, written three times in the sources with the same body.\<close>

definition fnv1a_step :: "32 word \<Rightarrow> 8 word \<Rightarrow> 32 word" where
  "fnv1a_step hash b = (hash XOR ucast b) * 0x01000193"

definition calculate_fnv1a_hash :: "8 word list \<Rightarrow> 32 word" where
  "calculate_fnv1a_hash bytes = foldl fnv1a_step 0x811C9DC5 bytes"

definition string_bytes :: "string \<Rightarrow> 8 word list" where
  "string_bytes s = map of_char s"

section \<open>Normalizer (USCN)\<close>

definition USCN_CANONICAL_BUFFER_SIZE :: nat where
  "USCN_CANONICAL_BUFFER_SIZE = 8192"

record uscn_mapping =
  encoded_form :: string
  canonical_form :: string
  encoded_len :: nat
  canonical_len :: nat

text \<open>The mapping table of the normalizer, in the order of the source (the end marker is
  the end of the list).\<close>

definition uscn_mappings :: "uscn_mapping list" where
  "uscn_mappings =
    [\<lparr>encoded_form = ''%2e%2e%2f'', canonical_form = ''../'', encoded_len = 9, canonical_len = 3\<rparr>,
     \<lparr>encoded_form = ''%c0%af'', canonical_form = ''../'', encoded_len = 6, canonical_len = 3\<rparr>,
     \<lparr>encoded_form = ''.%2e/'', canonical_form = ''../'', encoded_len = 5, canonical_len = 3\<rparr>,
     \<lparr>encoded_form = ''%2e%2e/'', canonical_form = ''../'', encoded_len = 7, canonical_len = 3\<rparr>,
     \<lparr>encoded_form = ''%2f'', canonical_form = ''/'', encoded_len = 3, canonical_len = 1\<rparr>,
     \<lparr>encoded_form = ''%2e'', canonical_form = ''.'', encoded_len = 3, canonical_len = 1\<rparr>,
     \<lparr>encoded_form = ''%20'', canonical_form = '' '', encoded_len = 3, canonical_len = 1\<rparr>,
     \<lparr>encoded_form = ''%c0%ae'', canonical_form = ''.'', encoded_len = 6, canonical_len = 1\<rparr>,
     \<lparr>encoded_form = ''%c0%af'', canonical_form = ''/'', encoded_len = 6, canonical_len = 1\<rparr>]"

text \<open>
  The inner \<open>for\<close> loop of \<open>apply_character_mappings\<close>: the first entry, in table order,
  whose key fits into the rest of the input, compares equal under \<open>memcmp\<close> and whose
  canonical form fits into the output.  An entry that matches but does not fit is skipped
  and the search goes on with the next entry.
\<close>

fun find_mapping :: "uscn_mapping list \<Rightarrow> string \<Rightarrow> nat \<Rightarrow> nat \<Rightarrow> uscn_mapping option" where
  "find_mapping [] inp output_pos output_max = None"
| "find_mapping (m # ms) inp output_pos output_max =
     (if encoded_len m \<le> length inp \<and>
         take (encoded_len m) inp = take (encoded_len m) (encoded_form m) \<and>
         output_pos + canonical_len m < output_max
      then Some m
      else find_mapping ms inp output_pos output_max)"

text \<open>
  The outer \<open>while\<close> loop: \<open>inp\<close> is the input from \<open>input_pos\<close> on, the result is the
  output written from \<open>output_pos\<close> on.
\<close>

function apply_mappings_loop :: "nat \<Rightarrow> string \<Rightarrow> nat \<Rightarrow> string" where
  "apply_mappings_loop output_max [] output_pos = []"
| "apply_mappings_loop output_max (c # cs) output_pos =
     (if output_pos < output_max - 1
      then (case find_mapping uscn_mappings (c # cs) output_pos output_max of
              Some m \<Rightarrow> take (canonical_len m) (canonical_form m) @
                        apply_mappings_loop output_max (drop (encoded_len m) (c # cs))
                          (output_pos + canonical_len m)
            | None \<Rightarrow> c # apply_mappings_loop output_max cs (output_pos + 1))
      else [])"
  by pat_completeness auto
termination
proof (relation "measure (\<lambda>(output_max, inp, output_pos). length inp)")
  show "wf (measure (\<lambda>(output_max, inp, output_pos). length inp))" by simp
next
  fix output_max :: nat and c :: char and cs :: string and output_pos :: nat and m :: uscn_mapping
  assume found: "find_mapping uscn_mappings (c # cs) output_pos output_max = Some m"
  have mem: "find_mapping ms inp p om = Some m \<Longrightarrow> m \<in> set ms" for ms inp p om
    by (induction ms) (auto split: if_splits)
  have "m \<in> set uscn_mappings" using found by (rule mem)
  then have "0 < encoded_len m" by (auto simp: uscn_mappings_def)
  then show "((output_max, drop (encoded_len m) (c # cs), output_pos + canonical_len m),
              (output_max, c # cs, output_pos)) \<in> measure (\<lambda>(output_max, inp, output_pos). length inp)"
    by simp
next
  fix output_max :: nat and c :: char and cs :: string and output_pos :: nat
  show "((output_max, cs, output_pos + 1), (output_max, c # cs, output_pos))
          \<in> measure (\<lambda>(output_max, inp, output_pos). length inp)"
    by simp
qed

definition apply_character_mappings :: "string \<Rightarrow> nat \<Rightarrow> string" where
  "apply_character_mappings inp output_max = apply_mappings_loop output_max inp 0"

definition normalize_case :: "string \<Rightarrow> bool \<Rightarrow> string" where
  "normalize_case str case_sensitive = (if case_sensitive then str else map tolower str)"

text \<open>The \<open>for\<close> loop of \<open>normalize_whitespace\<close>; the result is what is written from
  \<open>write_pos\<close> on.\<close>

fun whitespace_loop :: "string \<Rightarrow> bool \<Rightarrow> string" where
  "whitespace_loop [] in_whitespace = []"
| "whitespace_loop (c # cs) in_whitespace =
     (if isspace c
      then (if \<not> in_whitespace then CHR '' '' # whitespace_loop cs True
            else whitespace_loop cs True)
      else c # whitespace_loop cs False)"

text \<open>The trailing \<open>while\<close> loop, which steps \<open>write_pos\<close> back over spaces.\<close>

function trim_trailing :: "string \<Rightarrow> string" where
  "trim_trailing str =
     (if str \<noteq> [] \<and> last str = CHR '' '' then trim_trailing (butlast str) else str)"
  by pat_completeness auto
termination
  by (relation "measure length") auto

declare trim_trailing.simps [simp del]

definition normalize_whitespace :: "string \<Rightarrow> string" where
  "normalize_whitespace str = trim_trailing (whitespace_loop str False)"

record obi_normalizer =
  nz_initialized :: bool
  case_sensitive :: bool
  whitespace_normalize :: bool
  canonical_buffer :: string
  buffer_used :: nat

text \<open>\<open>obi_normalizer_create\<close>; the argument says whether \<open>malloc\<close> succeeds.\<close>

definition obi_normalizer_create :: "bool \<Rightarrow> obi_result \<times> obi_normalizer option" where
  "obi_normalizer_create malloc_ok =
     (if \<not> malloc_ok then (OBI_ERROR_BUFFER_OVERFLOW, None)
      else (OBI_SUCCESS,
            Some \<lparr>nz_initialized = True, case_sensitive = False, whitespace_normalize = True,
                  canonical_buffer = [], buffer_used = 0\<rparr>))"

definition obi_normalize_buffer ::
  "obi_normalizer \<Rightarrow> obi_buffer \<Rightarrow> obi_result \<times> obi_normalizer \<times> obi_buffer" where
  "obi_normalize_buffer normalizer buffer =
     (if \<not> nz_initialized normalizer then (OBI_ERROR_INVALID_INPUT, normalizer, buffer)
      else
        let temp_buffer = apply_character_mappings (data buffer) USCN_CANONICAL_BUFFER_SIZE
        in
        if length temp_buffer = 0 then (OBI_ERROR_NORMALIZATION_FAILED, normalizer, buffer)
        else
          let temp_buffer = normalize_case temp_buffer (case_sensitive normalizer);
              temp_buffer = (if whitespace_normalize normalizer
                             then normalize_whitespace temp_buffer else temp_buffer);
              normalized_len = length temp_buffer
          in
          if normalized_len \<ge> USCN_CANONICAL_BUFFER_SIZE
          then (OBI_ERROR_BUFFER_OVERFLOW, normalizer, buffer)
          else
            let normalizer = normalizer\<lparr>canonical_buffer := temp_buffer,
                                        buffer_used := normalized_len\<rparr>
            in
            if normalized_len > max_size buffer
            then (OBI_ERROR_BUFFER_OVERFLOW, normalizer, buffer)
            else (OBI_SUCCESS, normalizer,
                  buffer\<lparr>data := temp_buffer, normalized := True\<rparr>))"

text \<open>
  The three phases of the reduction as one function of the bytes, following the
  specification's reduction procedure: mapping pass, case folding, whitespace folding.
  It is compared with \<open>obi_normalize_buffer\<close> below.
\<close>

definition uscn_reduce :: "obi_normalizer \<Rightarrow> string \<Rightarrow> string" where
  "uscn_reduce normalizer inp =
     (let mapped = normalize_case (apply_character_mappings inp USCN_CANONICAL_BUFFER_SIZE)
                     (case_sensitive normalizer)
      in if whitespace_normalize normalizer then normalize_whitespace mapped else mapped)"

text \<open>A table key, in its exact spelling, starts at the head of \<open>s\<close>.\<close>

definition key_at :: "string \<Rightarrow> bool" where
  "key_at s = list_ex (\<lambda>m. encoded_len m \<le> length s \<and>
                          take (encoded_len m) s = take (encoded_len m) (encoded_form m))
                uscn_mappings"

text \<open>No table key, in its exact spelling, occurs anywhere in \<open>s\<close>.\<close>

fun key_free :: "string \<Rightarrow> bool" where
  "key_free [] = True"
| "key_free (c # cs) = (\<not> key_at (c # cs) \<and> key_free cs)"

section \<open>Automaton (DFA)\<close>

datatype dfa_state_type =
    DFA_STATE_INITIAL | DFA_STATE_PROCESSING | DFA_STATE_ACCEPTING
  | DFA_STATE_REJECTING | DFA_STATE_CANONICAL

record dfa_state =
  state_id :: nat
  state_type :: dfa_state_type
  is_accepting :: bool
  canonical_pattern :: string

record uscn_char_mapping =
  input_char :: char
  canonical_char :: char
  requires_normalization :: bool

definition DFA_PATTERN_BUFFER_SIZE :: nat where
  "DFA_PATTERN_BUFFER_SIZE = 4096"

text \<open>
  The character table of the automaton (a second table, also called \<open>uscn_mappings\<close> in
  its own file): white space to space, \<open>A\<close>-\<open>Z\<close> to \<open>a\<close>-\<open>z\<close>, then \<open>a\<close>-\<open>z\<close> and
  \<open>0\<close>-\<open>9\<close> kept, then the end marker with \<open>input_char = '\0'\<close>.  The runs of letters
  and digits that the source writes out entry by entry are generated here.
\<close>

definition uscn_char_mappings :: "uscn_char_mapping list" where
  "uscn_char_mappings =
     [\<lparr>input_char = CHR 0x09, canonical_char = CHR '' '', requires_normalization = True\<rparr>,
      \<lparr>input_char = CHR 0x0A, canonical_char = CHR '' '', requires_normalization = True\<rparr>,
      \<lparr>input_char = CHR 0x0D, canonical_char = CHR '' '', requires_normalization = True\<rparr>,
      \<lparr>input_char = CHR 0x0B, canonical_char = CHR '' '', requires_normalization = True\<rparr>,
      \<lparr>input_char = CHR 0x0C, canonical_char = CHR '' '', requires_normalization = True\<rparr>]
     @ map (\<lambda>i. \<lparr>input_char = char_of (65 + i), canonical_char = char_of (97 + i),
                  requires_normalization = True\<rparr>) [0..<26::nat]
     @ map (\<lambda>i. \<lparr>input_char = char_of (97 + i), canonical_char = char_of (97 + i),
                  requires_normalization = False\<rparr>) [0..<26::nat]
     @ map (\<lambda>i. \<lparr>input_char = char_of (48 + i), canonical_char = char_of (48 + i),
                  requires_normalization = False\<rparr>) [0..<10::nat]
     @ [\<lparr>input_char = CHR 0x00, canonical_char = CHR 0x00, requires_normalization = False\<rparr>]"

text \<open>The lookup loop of \<open>normalize_character\<close>: it stops at the end marker.\<close>

fun normalize_character_loop :: "uscn_char_mapping list \<Rightarrow> char \<Rightarrow> char" where
  "normalize_character_loop [] inp = inp"
| "normalize_character_loop (mapping # rest) inp =
     (if input_char mapping = CHR 0x00 then inp
      else if input_char mapping = inp then canonical_char mapping
      else normalize_character_loop rest inp)"

definition normalize_character :: "char \<Rightarrow> char" where
  "normalize_character inp = normalize_character_loop uscn_char_mappings inp"

definition calculate_pattern_hash :: "string \<Rightarrow> 32 word" where
  "calculate_pattern_hash pattern = calculate_fnv1a_hash (string_bytes pattern)"

text \<open>
  The automaton.  \<open>states\<close> holds the six initialised entries of the state array,
  \<open>transition_table s c\<close> is the entry for state \<open>s\<close> and byte value \<open>c\<close>, and
  \<open>pattern_buffer\<close> holds the \<open>buffer_position\<close> bytes recorded so far.  The flag
  \<open>is_minimal\<close>, which only \<open>minimize_dfa_states\<close> writes and no run of the automaton
  reads, is left out together with that function.
\<close>

record obi_automaton =
  au_initialized :: bool
  current_state :: nat
  state_count :: nat
  states :: "dfa_state list"
  transition_table :: "nat \<Rightarrow> nat \<Rightarrow> nat"
  pattern_buffer :: string
  canonical_hash :: "32 word"

definition initialize_default_states :: "dfa_state list" where
  "initialize_default_states =
     [\<lparr>state_id = 0, state_type = DFA_STATE_INITIAL, is_accepting = False,
       canonical_pattern = ''INIT''\<rparr>,
      \<lparr>state_id = 1, state_type = DFA_STATE_PROCESSING, is_accepting = False,
       canonical_pattern = ''JSON_START''\<rparr>,
      \<lparr>state_id = 2, state_type = DFA_STATE_PROCESSING, is_accepting = False,
       canonical_pattern = ''FIELD_NAME''\<rparr>,
      \<lparr>state_id = 3, state_type = DFA_STATE_PROCESSING, is_accepting = False,
       canonical_pattern = ''FIELD_VALUE''\<rparr>,
      \<lparr>state_id = 4, state_type = DFA_STATE_ACCEPTING, is_accepting = True,
       canonical_pattern = ''CANONICAL_ACCEPT''\<rparr>,
      \<lparr>state_id = 5, state_type = DFA_STATE_REJECTING, is_accepting = False,
       canonical_pattern = ''REJECT''\<rparr>]"

definition set_transition ::
  "(nat \<Rightarrow> nat \<Rightarrow> nat) \<Rightarrow> nat \<Rightarrow> nat \<Rightarrow> nat \<Rightarrow> (nat \<Rightarrow> nat \<Rightarrow> nat)" where
  "set_transition t s c v = t(s := (t s)(c := v))"

text \<open>\<open>build_transition_table\<close>: every entry is first set to the reject state 5, then the
  assignments of the source follow in their order; a \<open>for\<close> loop is a fold over its range.\<close>

definition build_transition_table :: "nat \<Rightarrow> nat \<Rightarrow> nat" where
  "build_transition_table =
     (let t = (\<lambda>i j. 5);
          t = set_transition t 0 (of_char CHR ''{'') 1;
          t = set_transition t 0 (of_char CHR '' '') 0;
          t = set_transition t 0 (of_char CHR 0x09) 0;
          t = set_transition t 0 (of_char CHR 0x0A) 0;
          t = set_transition t 0 (of_char CHR 0x0D) 0;
          t = set_transition t 1 (of_char CHR 0x22) 2;
          t = set_transition t 1 (of_char CHR '' '') 1;
          t = set_transition t 1 (of_char CHR ''}'') 4;
          t = fold (\<lambda>i t. set_transition t 2 i 2) [of_char CHR ''a''..<Suc (of_char CHR ''z'')] t;
          t = fold (\<lambda>i t. set_transition t 2 i 2) [of_char CHR ''A''..<Suc (of_char CHR ''Z'')] t;
          t = fold (\<lambda>i t. set_transition t 2 i 2) [of_char CHR ''0''..<Suc (of_char CHR ''9'')] t;
          t = set_transition t 2 (of_char CHR ''_'') 2;
          t = set_transition t 2 (of_char CHR 0x22) 3;
          t = set_transition t 3 (of_char CHR '':'') 3;
          t = set_transition t 3 (of_char CHR '' '') 3;
          t = set_transition t 3 (of_char CHR 0x22) 3;
          t = fold (\<lambda>i t. if i \<noteq> of_char CHR 0x22 \<and> i \<noteq> of_char CHR 0x5C
                            then set_transition t 3 i 3 else t) [32..<Suc 126] t;
          t = set_transition t 3 (of_char CHR '','') 1;
          t = set_transition t 3 (of_char CHR ''}'') 4
      in t)"

text \<open>\<open>obi_automaton_create\<close>; the argument says whether \<open>malloc\<close> succeeds.\<close>

definition obi_automaton_create :: "bool \<Rightarrow> obi_result \<times> obi_automaton option" where
  "obi_automaton_create malloc_ok =
     (if \<not> malloc_ok then (OBI_ERROR_BUFFER_OVERFLOW, None)
      else (OBI_SUCCESS,
            Some \<lparr>au_initialized = True, current_state = 0, state_count = 6,
                  states = initialize_default_states,
                  transition_table = build_transition_table,
                  pattern_buffer = [], canonical_hash = 0\<rparr>))"

text \<open>
  The \<open>for\<close> loop of \<open>obi_automaton_process\<close> over the rest of the input.  The result
  \<open>OBI_SUCCESS\<close> stands for leaving the loop at its end; the two error results are the
  two \<open>return\<close> statements inside the loop.
\<close>

fun process_loop :: "obi_automaton \<Rightarrow> string \<Rightarrow> obi_result \<times> obi_automaton" where
  "process_loop automaton [] = (OBI_SUCCESS, automaton)"
| "process_loop automaton (original_char # rest) =
     (let canonical_char = normalize_character original_char;
          automaton = (if length (pattern_buffer automaton) < DFA_PATTERN_BUFFER_SIZE - 1
                       then automaton\<lparr>pattern_buffer := pattern_buffer automaton @ [canonical_char]\<rparr>
                       else automaton);
          next_state = transition_table automaton (current_state automaton) (of_char canonical_char)
      in if next_state \<ge> state_count automaton
         then (OBI_ERROR_DFA_TRANSITION_FAILED, automaton\<lparr>current_state := 5\<rparr>)
         else if next_state = 5
              then (OBI_ERROR_VALIDATION_FAILED, automaton\<lparr>current_state := next_state\<rparr>)
              else process_loop (automaton\<lparr>current_state := next_state\<rparr>) rest)"

definition store_pattern_hash :: "32 word \<Rightarrow> 8 word list \<Rightarrow> 8 word list" where
  "store_pattern_hash hash_bytes ph =
     fold (\<lambda>i ph. ph[i := ucast (drop_bit (i * 8) hash_bytes)]) [0..<min 4 32] ph"

definition obi_automaton_process ::
  "obi_automaton \<Rightarrow> obi_buffer \<Rightarrow> obi_result \<times> obi_automaton \<times> obi_buffer" where
  "obi_automaton_process automaton buffer =
     (if \<not> au_initialized automaton then (OBI_ERROR_INVALID_INPUT, automaton, buffer)
      else
        let automaton = automaton\<lparr>current_state := 0, pattern_buffer := []\<rparr>;
            (result, automaton) = process_loop automaton (data buffer)
        in if result \<noteq> OBI_SUCCESS then (result, automaton, buffer)
           else if \<not> is_accepting (states automaton ! current_state automaton)
                then (OBI_ERROR_VALIDATION_FAILED, automaton, buffer)
                else
                  let automaton = automaton\<lparr>canonical_hash :=
                                     calculate_pattern_hash (pattern_buffer automaton)\<rparr>
                  in (OBI_SUCCESS, automaton,
                      buffer\<lparr>pattern_hash :=
                               store_pattern_hash (canonical_hash automaton) (pattern_hash buffer)\<rparr>))"

section \<open>Cost evaluator and validator construction\<close>

text \<open>
  In the cost evaluator the C type \<open>double\<close> is modelled by \<open>real\<close>: sums, products,
  quotients and \<open>log2\<close> are exact there.  The parameter test of \<open>obi_validator_create\<close> is
  modelled on the doubles themselves, with rounding, infinities and NaN (see below).
\<close>

text \<open>
  Modelled from the spec: the constants \<open>OBI_EPSILON_MIN\<close>, \<open>OBI_COST_THRESHOLD\<close> and
  \<open>OBI_WARNING_THRESHOLD\<close> of the header \<open>obiprotocol.h\<close>, which is not in the sources
  (epsilon floor \<open>10\<^sup>-\<^sup>1\<^sup>2\<close>, zone bounds 0.5 and 0.6).
\<close>

definition OBI_EPSILON_MIN :: real where
  "OBI_EPSILON_MIN = 1 / 10 ^ 12"

definition OBI_COST_THRESHOLD :: real where
  "OBI_COST_THRESHOLD = 0.5"

definition OBI_WARNING_THRESHOLD :: real where
  "OBI_WARNING_THRESHOLD = 0.6"

text \<open>The arrays \<open>p\<close> and \<open>q\<close> are lists read at the indices \<open>0 .. n - 1\<close>; the loop over
  \<open>i\<close> is a fold over that range with the accumulator \<open>kl_div\<close>.\<close>

definition obi_kl_divergence :: "real list \<Rightarrow> real list \<Rightarrow> nat \<Rightarrow> real" where
  "obi_kl_divergence p q n =
     (if n = 0 then - 1
      else fold (\<lambda>i kl_div.
                   if p ! i \<le> 0 then kl_div
                   else let q_safe = (if q ! i < OBI_EPSILON_MIN then OBI_EPSILON_MIN else q ! i)
                        in kl_div + p ! i * log 2 (p ! i / q_safe))
             [0..<n] 0)"

definition obi_entropy_change :: "real \<Rightarrow> real \<Rightarrow> real" where
  "obi_entropy_change entropy_i entropy_j = entropy_i - entropy_j"

definition obi_calculate_traversal_cost ::
  "real list \<Rightarrow> real list \<Rightarrow> nat \<Rightarrow> real \<Rightarrow> real \<Rightarrow> real" where
  "obi_calculate_traversal_cost p_i p_j n alpha beta =
     (if n = 0 then - 1
      else if alpha < 0 \<or> beta < 0 \<or> alpha + beta > 1.0001 then - 1
      else
        let kl_component = obi_kl_divergence p_i p_j n
        in if kl_component < 0 then - 1
           else
             let (entropy_i, entropy_j) =
                   fold (\<lambda>i (entropy_i, entropy_j).
                           (if p_i ! i > 0 then entropy_i - p_i ! i * log 2 (p_i ! i) else entropy_i,
                            if p_j ! i > 0 then entropy_j - p_j ! i * log 2 (p_j ! i) else entropy_j))
                     [0..<n] (0, 0);
                 entropy_delta = obi_entropy_change entropy_i entropy_j
             in alpha * kl_component + beta * entropy_delta)"

definition obi_assess_governance_zone :: "real \<Rightarrow> obi_governance_zone" where
  "obi_assess_governance_zone cost =
     (if cost \<le> OBI_COST_THRESHOLD then OBI_ZONE_AUTONOMOUS
      else if cost \<le> OBI_WARNING_THRESHOLD then OBI_ZONE_WARNING
      else OBI_ZONE_GOVERNANCE)"

subsection \<open>Doubles\<close>

text \<open>
  A value of the C type \<open>double\<close> (IEEE-754 binary64): a finite value, given by the real
  it denotes, one of the two infinities, or a NaN.  The two zeros are one value here, since
  the comparisons and the sum below do not tell them apart.
\<close>

datatype double = Finite real | PosInf | NegInf | NaN

text \<open>
  Rounding of a real to the nearest double, ties to even (the default rounding mode):
  \<open>double_exponent\<close> is the exponent of the binade of \<open>x\<close>, not below that of the
  subnormals; \<open>double_spacing\<close> is the distance between neighbouring doubles of that binade
  (53 significant bits); the result is the nearest multiple of the spacing, and a result of
  magnitude \<open>2\<^sup>1\<^sup>0\<^sup>2\<^sup>4\<close> overflows to an infinity.
\<close>

definition round_ties_even :: "real \<Rightarrow> int" where
  "round_ties_even t =
     (let f = \<lfloor>t\<rfloor>
      in if t - of_int f < 1 / 2 then f
         else if t - of_int f > 1 / 2 then f + 1
         else if even f then f else f + 1)"

definition double_exponent :: "real \<Rightarrow> int" where
  "double_exponent x = max \<lfloor>log 2 \<bar>x\<bar>\<rfloor> (- 1022)"

definition double_spacing :: "real \<Rightarrow> real" where
  "double_spacing x = 2 powr (of_int (double_exponent x) - 52)"

definition round_double :: "real \<Rightarrow> double" where
  "round_double x =
     (if x = 0 then Finite 0
      else
        let y = of_int (round_ties_even (x / double_spacing x)) * double_spacing x
        in if 2 ^ 1024 \<le> \<bar>y\<bar> then (if 0 < y then PosInf else NegInf) else Finite y)"

text \<open>The C operators \<open><\<close> and \<open>>\<close> on doubles: every comparison with a NaN is false.\<close>

fun double_less :: "double \<Rightarrow> double \<Rightarrow> bool" where
  "double_less NaN y = False"
| "double_less x NaN = False"
| "double_less (Finite x) (Finite y) = (x < y)"
| "double_less (Finite x) PosInf = True"
| "double_less (Finite x) NegInf = False"
| "double_less PosInf y = False"
| "double_less NegInf NegInf = False"
| "double_less NegInf y = True"

definition double_greater :: "double \<Rightarrow> double \<Rightarrow> bool" where
  "double_greater x y = double_less y x"

text \<open>The C operator \<open>+\<close> on doubles: the exact sum of two finite values is rounded to a
  double before it is used (\<open>FLT_EVAL_METHOD\<close> 0).\<close>

fun double_add :: "double \<Rightarrow> double \<Rightarrow> double" where
  "double_add NaN y = NaN"
| "double_add x NaN = NaN"
| "double_add PosInf NegInf = NaN"
| "double_add NegInf PosInf = NaN"
| "double_add PosInf y = PosInf"
| "double_add x PosInf = PosInf"
| "double_add NegInf y = NegInf"
| "double_add x NegInf = NegInf"
| "double_add (Finite x) (Finite y) = round_double (x + y)"

subsection \<open>Validator\<close>

text \<open>
  Modelled from the spec: the struct \<open>obi_validation_context_t\<close> of the missing header,
  with the fields the sources read and initialise.  The type of its three \<open>double\<close> fields
  is a parameter: \<open>double\<close> where \<open>obi_validator_create\<close> tests them, \<open>real\<close> where the cost
  evaluator computes with them.
\<close>

record 'n obi_validation_context =
  zero_trust_enforced :: bool
  canonical_only :: bool
  alpha :: 'n
  beta :: 'n
  epsilon_min :: 'n

record 'n obi_validator =
  v_context :: "'n obi_validation_context"
  v_initialized :: bool
  validation_count :: nat

text \<open>
  \<open>obi_validator_create\<close> of \<open>obi_validator.c\<close>.  The first argument says whether
  \<open>calloc\<close> succeeds; the second component of the result is what \<open>*validator\<close> points to
  afterwards (\<open>None\<close> for \<open>NULL\<close>).  The \<open>audit\<close> and \<open>pattern_registry\<close> pointers, which
  \<open>calloc\<close> leaves \<open>NULL\<close> and nothing in the file sets, are left out.  A literal of the
  source is the double nearest to its decimal value.
\<close>

definition obi_validator_create ::
  "bool \<Rightarrow> double obi_validation_context \<Rightarrow> obi_result \<times> double obi_validator option" where
  "obi_validator_create calloc_ok ctx =
     (if \<not> calloc_ok then (OBI_ERROR_BUFFER_OVERFLOW, None)
      else
        let validator = \<lparr>v_context = ctx, v_initialized = False, validation_count = 0\<rparr>
        in if double_less (alpha (v_context validator)) (round_double 0) \<or>
              double_less (beta (v_context validator)) (round_double 0) \<or>
              double_greater
                (double_add (alpha (v_context validator)) (beta (v_context validator)))
                (round_double 1.0001)
           then (OBI_ERROR_NUMERICAL_INSTABILITY, None)
           else if \<not> zero_trust_enforced ctx then (OBI_ERROR_ZERO_TRUST_VIOLATION, None)
           else (OBI_SUCCESS, Some (validator\<lparr>v_initialized := True, validation_count := 0\<rparr>)))"

text \<open>
  The first half of \<open>validate_mathematical_properties\<close>: the two 16-entry arrays \<open>pi\<close> and
  \<open>pj\<close> (here \<open>p_i\<close> and \<open>p_j\<close>) and the size \<open>n\<close>.  \<open>buffer->data[i] + 1\<close> is computed in \<open>int\<close>, so it does not
  wrap at 255.
\<close>

definition derive_distributions :: "obi_buffer \<Rightarrow> real list \<times> real list \<times> nat" where
  "derive_distributions buffer =
     (let n = (if length (data buffer) < 16 then length (data buffer) else 16);
          p_i = fold (\<lambda>i p_i. p_i[i := real (of_char (data buffer ! i) + 1) / 256])
                 [0..<n] (replicate 16 0);
          sum = fold (\<lambda>i sum. sum + p_i ! i) [0..<n] 0;
          (p_i, p_j) = fold (\<lambda>i (p_i, p_j). (p_i[i := p_i ! i / sum], p_j[i := 1 / real n]))
                       [0..<n] (p_i, replicate 16 0)
      in (p_i, p_j, n))"

definition validate_mathematical_properties ::
  "real obi_validator \<Rightarrow> obi_buffer \<Rightarrow> obi_result \<times> obi_buffer" where
  "validate_mathematical_properties validator buffer =
     (let (p_i, p_j, n) = derive_distributions buffer;
          cost = obi_calculate_traversal_cost p_i p_j n
                   (alpha (v_context validator)) (beta (v_context validator))
      in if cost < 0 then (OBI_ERROR_NUMERICAL_INSTABILITY, buffer)
         else
           let buffer = buffer\<lparr>cost_value := cost,
                               governance_zone := obi_assess_governance_zone cost\<rparr>
           in if governance_zone buffer = OBI_ZONE_GOVERNANCE
              then (OBI_ERROR_SINPHASE_VIOLATION, buffer)
              else (OBI_SUCCESS, buffer))"

section \<open>Audit log\<close>

record obi_audit_entry =
  timestamp :: "64 word"
  operation :: string
  hash_reference :: string
  "context" :: string
  compliance_level :: string
  sequence_number :: "32 word"
  checksum :: "32 word"

text \<open>The eight bytes of the \<open>uint64_t\<close> time stamp as they lie in memory; the model
  fixes a little-endian machine.\<close>

definition timestamp_bytes :: "64 word \<Rightarrow> 8 word list" where
  "timestamp_bytes t = map (\<lambda>i. ucast (drop_bit (8 * i) t)) [0..<8]"

definition calculate_entry_checksum :: "obi_audit_entry \<Rightarrow> 32 word" where
  "calculate_entry_checksum entry =
     (let hash = calculate_fnv1a_hash (timestamp_bytes (timestamp entry));
          hash = hash XOR calculate_fnv1a_hash (string_bytes (operation entry));
          hash = hash XOR calculate_fnv1a_hash (string_bytes (hash_reference entry));
          hash = hash XOR calculate_fnv1a_hash (string_bytes (context entry));
          hash = hash XOR sequence_number entry
      in hash)"

text \<open>
  A line of the log file after \<open>sscanf\<close>: \<open>None\<close> when fewer than seven fields were
  converted, otherwise the six parsed fields (as an entry whose \<open>checksum\<close> is still 0)
  and the stored checksum.  The text format itself is not modelled: a log is the list of
  its parsed lines, and \<open>None\<close> for the whole log is a file that cannot be opened.
\<close>

type_synonym audit_line = "(obi_audit_entry \<times> 32 word) option"

text \<open>The \<open>while\<close> loop over the lines; the result is the list of line numbers reported
  on \<open>stderr\<close>, one for each integrity failure.\<close>

fun verify_lines :: "audit_line list \<Rightarrow> nat \<Rightarrow> nat list" where
  "verify_lines [] line_count = []"
| "verify_lines (line # rest) line_count =
     (let line_count = line_count + 1
      in case line of
           Some (entry, stored_checksum) \<Rightarrow>
             (let calculated_checksum = calculate_entry_checksum entry
              in if calculated_checksum \<noteq> stored_checksum
                 then line_count # verify_lines rest line_count
                 else verify_lines rest line_count)
         | None \<Rightarrow> line_count # verify_lines rest line_count)"

definition obi_audit_verify_integrity :: "audit_line list option \<Rightarrow> obi_result \<times> nat list" where
  "obi_audit_verify_integrity file =
     (case file of
        None \<Rightarrow> (OBI_ERROR_AUDIT_REQUIRED, [])
      | Some lines \<Rightarrow>
          let failures = verify_lines lines 0
          in if length failures > 0 then (OBI_ERROR_VALIDATION_FAILED, failures)
             else (OBI_SUCCESS, []))"

text \<open>The line that \<open>obi_audit_log_operation\<close> writes for an entry and \<open>sscanf\<close> reads
  back: the fields of the entry and, as stored checksum, its \<open>checksum\<close> field.\<close>

definition written_line :: "obi_audit_entry \<Rightarrow> audit_line" where
  "written_line entry = Some (entry\<lparr>checksum := 0\<rparr>, checksum entry)"

lemma find_mapping_Some:
  "find_mapping ms inp p om = Some m \<Longrightarrow>
     m \<in> set ms \<and> encoded_len m \<le> length inp \<and>
     take (encoded_len m) inp = take (encoded_len m) (encoded_form m) \<and>
     p + canonical_len m < om"
  by (induction ms) (auto split: if_splits)

lemma table_entry_cases:
  "m \<in> set uscn_mappings \<Longrightarrow>
     take (canonical_len m) (canonical_form m) \<in> {''../'', ''/'', ''.'', '' ''} \<and>
     0 < canonical_len m \<and> canonical_len m < encoded_len m \<and>
     length (encoded_form m) = encoded_len m"
  by (auto simp: uscn_mappings_def)

lemma loop_length_bound:
  "pos \<le> om - 1 \<Longrightarrow> pos + length (apply_mappings_loop om inp pos) \<le> om - 1"
proof (induction om inp pos rule: apply_mappings_loop.induct)
  case (1 om pos)
  then show ?case by simp
next
  case (2 om c cs pos)
  show ?case
  proof (cases "pos < om - 1")
    case False
    then show ?thesis using 2(3) by simp
  next
    case True
    show ?thesis
    proof (cases "find_mapping uscn_mappings (c # cs) pos om")
      case None
      with True 2(1)[OF True None] show ?thesis by simp
    next
      case (Some m)
      from find_mapping_Some[OF Some] have fit: "pos + canonical_len m < om" by simp
      then have "pos + canonical_len m \<le> om - 1" by simp
      from 2(2)[OF True Some this] True Some show ?thesis by simp
    qed
  qed
qed

lemma loop_not_Nil:
  "pos < om - 1 \<Longrightarrow> inp \<noteq> [] \<Longrightarrow> apply_mappings_loop om inp pos \<noteq> []"
proof (cases inp)
  case Nil
  assume "inp \<noteq> []" with Nil show ?thesis by simp
next
  case (Cons c cs)
  assume p: "pos < om - 1"
  show ?thesis
  proof (cases "find_mapping uscn_mappings (c # cs) pos om")
    case None
    with p Cons show ?thesis by simp
  next
    case (Some m)
    from find_mapping_Some[OF Some] have "m \<in> set uscn_mappings" by simp
    from table_entry_cases[OF this] have "take (canonical_len m) (canonical_form m) \<noteq> []" by auto
    with p Cons Some show ?thesis by simp
  qed
qed

lemma acm_Nil_iff:
  "apply_character_mappings s USCN_CANONICAL_BUFFER_SIZE = [] \<longleftrightarrow> s = []"
proof
  assume "s = []" then show "apply_character_mappings s USCN_CANONICAL_BUFFER_SIZE = []"
    by (simp add: apply_character_mappings_def)
next
  assume e: "apply_character_mappings s USCN_CANONICAL_BUFFER_SIZE = []"
  show "s = []"
  proof (rule ccontr)
    assume "s \<noteq> []"
    then have "apply_mappings_loop 8192 s 0 \<noteq> []" by (intro loop_not_Nil) simp_all
    with e show False by (simp add: apply_character_mappings_def USCN_CANONICAL_BUFFER_SIZE_def)
  qed
qed

lemma acm_length: "length (apply_character_mappings s USCN_CANONICAL_BUFFER_SIZE) < USCN_CANONICAL_BUFFER_SIZE"
  using loop_length_bound[of 0 8192 s]
  by (simp add: apply_character_mappings_def USCN_CANONICAL_BUFFER_SIZE_def)

lemma trim_trailing_conv: "trim_trailing s = rev (dropWhile (\<lambda>c. c = CHR '' '') (rev s))"
proof (induction s rule: rev_induct)
  case Nil
  then show ?case by (simp add: trim_trailing.simps)
next
  case (snoc x xs)
  then show ?case by (subst trim_trailing.simps) simp
qed

lemma length_trim_trailing: "length (trim_trailing s) \<le> length s"
  by (simp add: trim_trailing_conv length_dropWhile_le[of _ "rev s", simplified])

lemma length_whitespace_loop: "length (whitespace_loop s b) \<le> length s"
  by (induction s arbitrary: b) (auto simp: le_SucI)

lemma length_normalize_whitespace: "length (normalize_whitespace s) \<le> length s"
  unfolding normalize_whitespace_def
  using length_trim_trailing[of "whitespace_loop s False"] length_whitespace_loop[of s False]
  by linarith

lemma length_uscn_reduce: "length (uscn_reduce nz s) < USCN_CANONICAL_BUFFER_SIZE"
proof -
  let ?m = "apply_character_mappings s USCN_CANONICAL_BUFFER_SIZE"
  have "length (uscn_reduce nz s) \<le> length ?m"
    using length_normalize_whitespace[of "normalize_case ?m (case_sensitive nz)"]
    by (cases "case_sensitive nz") (simp_all add: uscn_reduce_def Let_def normalize_case_def)
  with acm_length[of s] show ?thesis by linarith
qed

lemma obi_normalize_buffer_eq:
  assumes "nz_initialized nz"
  shows "obi_normalize_buffer nz b =
     (if data b = [] then (OBI_ERROR_NORMALIZATION_FAILED, nz, b)
      else if max_size b < length (uscn_reduce nz (data b))
           then (OBI_ERROR_BUFFER_OVERFLOW,
                 nz\<lparr>canonical_buffer := uscn_reduce nz (data b),
                    buffer_used := length (uscn_reduce nz (data b))\<rparr>, b)
           else (OBI_SUCCESS,
                 nz\<lparr>canonical_buffer := uscn_reduce nz (data b),
                    buffer_used := length (uscn_reduce nz (data b))\<rparr>,
                 b\<lparr>data := uscn_reduce nz (data b), normalized := True\<rparr>))"
proof -
  have r: "(if whitespace_normalize nz
            then normalize_whitespace (normalize_case (apply_character_mappings (data b) USCN_CANONICAL_BUFFER_SIZE) (case_sensitive nz))
            else normalize_case (apply_character_mappings (data b) USCN_CANONICAL_BUFFER_SIZE) (case_sensitive nz))
           = uscn_reduce nz (data b)"
    by (simp add: uscn_reduce_def Let_def)
  have l: "\<not> USCN_CANONICAL_BUFFER_SIZE \<le> length (uscn_reduce nz (data b))"
    using length_uscn_reduce[of nz "data b"] by simp
  show ?thesis
    unfolding obi_normalize_buffer_def Let_def r
    using assms l by (simp add: acm_Nil_iff)
qed

section \<open>Normalizer: outcomes and confluence\<close>


text \<open>
  Claim C2.  With the normalizer as \<open>obi_normalizer_create\<close> builds it and a buffer that
  can hold three bytes, each of the four path-traversal spellings
  \<open>../\<close>, \<open>%2e%2e%2f\<close>, \<open>%c0%af\<close> and \<open>.%2e/\<close> is normalized with success to the
  same bytes \<open>../\<close>, and the buffer is marked normalized.
\<close>

theorem normalization_confluence_path_traversal:
  assumes "obi_normalizer_create True = (OBI_SUCCESS, Some nz)"
    and "3 \<le> max_size b"
    and "data b \<in> {''../'', ''%2e%2e%2f'', ''%c0%af'', ''.%2e/''}"
  shows "fst (obi_normalize_buffer nz b) = OBI_SUCCESS \<and>
         snd (snd (obi_normalize_buffer nz b)) = b\<lparr>data := ''../'', normalized := True\<rparr>"
proof -
  have nz: "nz_initialized nz" "\<not> case_sensitive nz" "whitespace_normalize nz"
    using assms(1) by (auto simp: obi_normalizer_create_def)
  have ws: "normalize_whitespace ''../'' = ''../''"
    by (simp add: normalize_whitespace_def isspace_def trim_trailing.simps)
  have lc: "map tolower ''../'' = ''../''"
    by (simp add: tolower_def isupper_def)
  have lws: "normalize_whitespace (map tolower ''../'') = ''../''"
    unfolding lc ws ..
  have m: "apply_character_mappings (data b) USCN_CANONICAL_BUFFER_SIZE = ''../''"
    using assms(3)
    by (auto simp: apply_character_mappings_def USCN_CANONICAL_BUFFER_SIZE_def uscn_mappings_def)
  have r: "uscn_reduce nz (data b) = ''../''"
    using nz lws by (simp add: uscn_reduce_def m normalize_case_def del: list.map)
  have ne: "data b \<noteq> []" using assms(3) by auto
  show ?thesis
    using assms(2) ne by (simp add: obi_normalize_buffer_eq[OF nz(1)] r)
qed

text \<open>Witness for C2 at the overlong spelling \<open>%c0%af\<close>.\<close>

theorem normalization_confluence_path_traversal_witness:
  "let nz = \<lparr>nz_initialized = True, case_sensitive = False, whitespace_normalize = True,
              canonical_buffer = [], buffer_used = 0\<rparr>;
       b = \<lparr>data = ''%c0%af'', max_size = 8192, security_level = 0, normalized = False,
            validated = False, cost_value = 0, governance_zone = OBI_ZONE_AUTONOMOUS,
            pattern_hash = replicate 32 0\<rparr>
   in obi_normalizer_create True = (OBI_SUCCESS, Some nz) \<and> 3 \<le> max_size b \<and>
      data b \<in> {''../'', ''%2e%2e%2f'', ''%c0%af'', ''.%2e/''} \<and>
      fst (obi_normalize_buffer nz b) = OBI_SUCCESS \<and>
      data (snd (snd (obi_normalize_buffer nz b))) = ''../''"
  using normalization_confluence_path_traversal
    [of "\<lparr>nz_initialized = True, case_sensitive = False, whitespace_normalize = True,
              canonical_buffer = [], buffer_used = 0\<rparr>"
        "\<lparr>data = ''%c0%af'', max_size = 8192, security_level = 0, normalized = False,
            validated = False, cost_value = 0, governance_zone = OBI_ZONE_AUTONOMOUS,
            pattern_hash = replicate 32 0\<rparr>"]
  by (simp add: obi_normalizer_create_def Let_def)




section \<open>Normalizer: table keys in the output of the phases\<close>

lemma take_eq_prefix:
  "length k = n \<Longrightarrow> (n \<le> length s \<and> take n s = k) \<longleftrightarrow> prefix k s"
proof
  assume "length k = n" and "n \<le> length s \<and> take n s = k"
  then have "s = k @ drop n s" by (metis append_take_drop_id)
  then show "prefix k s" by (metis prefixI)
next
  assume "length k = n" and "prefix k s"
  then show "n \<le> length s \<and> take n s = k" by (auto simp: prefix_def)
qed

lemma key_at_iff:
  "key_at s \<longleftrightarrow>
     prefix ''%2e'' s \<or> prefix ''%2f'' s \<or> prefix ''%20'' s \<or>
     prefix ''%c0%af'' s \<or> prefix ''%c0%ae'' s \<or> prefix ''.%2e/'' s"
proof -
  have "key_at s \<longleftrightarrow>
     prefix ''%2e%2e%2f'' s \<or> prefix ''%c0%af'' s \<or> prefix ''.%2e/'' s \<or>
     prefix ''%2e%2e/'' s \<or> prefix ''%2f'' s \<or> prefix ''%2e'' s \<or> prefix ''%20'' s \<or>
     prefix ''%c0%ae'' s \<or> prefix ''%c0%af'' s"
    by (simp add: key_at_def uscn_mappings_def take_eq_prefix)
  moreover have "prefix ''%2e%2e%2f'' s \<Longrightarrow> prefix ''%2e'' s"
    by (rule prefix_order.trans[of "''%2e''" "''%2e%2e%2f''"]) simp_all
  moreover have "prefix ''%2e%2e/'' s \<Longrightarrow> prefix ''%2e'' s"
    by (rule prefix_order.trans[of "''%2e''" "''%2e%2e/''"]) simp_all
  ultimately show ?thesis by blast
qed

lemma find_mapping_None_iff:
  "find_mapping ms inp pos om = None \<longleftrightarrow>
     (\<forall>m\<in>set ms. \<not> (encoded_len m \<le> length inp \<and>
         take (encoded_len m) inp = take (encoded_len m) (encoded_form m) \<and>
         pos + canonical_len m < om))"
  by (induction ms) auto

lemma find_mapping_Some_key_at:
  "find_mapping uscn_mappings inp pos om = Some m \<Longrightarrow> key_at inp"
  using find_mapping_Some[of uscn_mappings inp pos om m]
  by (auto simp: key_at_def list_ex_iff)

lemma key_at_find_mapping:
  assumes "key_at inp" and "pos + length inp \<le> om"
  shows "find_mapping uscn_mappings inp pos om \<noteq> None"
proof -
  from assms(1) obtain m where m: "m \<in> set uscn_mappings" "encoded_len m \<le> length inp"
    "take (encoded_len m) inp = take (encoded_len m) (encoded_form m)"
    by (auto simp: key_at_def list_ex_iff)
  from table_entry_cases[OF m(1)] have "canonical_len m < encoded_len m" by simp
  with m(2) assms(2) have "pos + canonical_len m < om" by linarith
  with m show ?thesis by (auto simp: find_mapping_None_iff)
qed

lemma key_at_length: "key_at s \<Longrightarrow> 3 \<le> length s"
  by (auto simp: key_at_iff prefix_def)

lemma loop_head_copied:
  assumes "apply_mappings_loop om inp pos = c # out"
    and "c \<noteq> CHR ''.''" "c \<noteq> CHR ''/''" "c \<noteq> CHR '' ''"
  shows "\<exists>cs. inp = c # cs \<and> out = apply_mappings_loop om cs (pos + 1) \<and>
              find_mapping uscn_mappings inp pos om = None"
proof (cases inp)
  case Nil
  with assms(1) show ?thesis by simp
next
  case (Cons d ds)
  show ?thesis
  proof (cases "pos < om - 1")
    case False
    with assms(1) Cons show ?thesis by simp
  next
    case True
    show ?thesis
    proof (cases "find_mapping uscn_mappings (d # ds) pos om")
      case None
      with assms(1) Cons True show ?thesis by simp
    next
      case (Some m)
      from find_mapping_Some[OF Some] have "m \<in> set uscn_mappings" by simp
      from table_entry_cases[OF this]
      have "take (canonical_len m) (canonical_form m) \<in> {''../'', ''/'', ''.'', '' ''}" by simp
      moreover have "apply_mappings_loop om inp pos =
          take (canonical_len m) (canonical_form m) @
          apply_mappings_loop om (drop (encoded_len m) (d # ds)) (pos + canonical_len m)"
        using Cons True Some by simp
      ultimately show ?thesis using assms by auto
    qed
  qed
qed

lemma loop_prefix_transfer:
  "prefix k (apply_mappings_loop om inp pos) \<Longrightarrow>
   CHR ''.'' \<notin> set k \<Longrightarrow> CHR ''/'' \<notin> set k \<Longrightarrow> CHR '' '' \<notin> set k \<Longrightarrow>
   prefix k inp"
proof (induction k arbitrary: inp pos)
  case Nil
  then show ?case by simp
next
  case (Cons c k)
  from Cons.prems(1) obtain out where out: "apply_mappings_loop om inp pos = c # out"
    and pk: "prefix k out"
    by (cases "apply_mappings_loop om inp pos") auto
  from Cons.prems have "c \<noteq> CHR ''.''" "c \<noteq> CHR ''/''" "c \<noteq> CHR '' ''" by auto
  from loop_head_copied[OF out this] obtain cs where
    cs: "inp = c # cs" "out = apply_mappings_loop om cs (pos + 1)" by blast
  from pk cs(2) Cons.prems have "prefix k cs" by (intro Cons.IH[of cs "pos + 1"]) auto
  with cs(1) show ?case by simp
qed

lemma loop_head_mapped:
  assumes "key_at inp" and "pos + length inp \<le> om"
  shows "\<exists>c out. apply_mappings_loop om inp pos = c # out \<and>
                  (c = CHR ''.'' \<or> c = CHR ''/'' \<or> c = CHR '' '')"
proof -
  from key_at_length[OF assms(1)] have len: "3 \<le> length inp" .
  then obtain d ds where inp: "inp = d # ds" by (cases inp) auto
  from len assms(2) have p: "pos < om - 1" by linarith
  from key_at_find_mapping[OF assms] obtain m where
    m: "find_mapping uscn_mappings inp pos om = Some m" by auto
  from find_mapping_Some[OF m] have "m \<in> set uscn_mappings" by simp
  from table_entry_cases[OF this]
  have "take (canonical_len m) (canonical_form m) \<in> {''../'', ''/'', ''.'', '' ''}" by simp
  moreover have "apply_mappings_loop om inp pos =
      take (canonical_len m) (canonical_form m) @
      apply_mappings_loop om (drop (encoded_len m) inp) (pos + canonical_len m)"
    using inp p m by simp
  ultimately show ?thesis by auto
qed

lemma loop_no_percent_key:
  assumes "pos + length inp \<le> om" and "prefix k (apply_mappings_loop om inp pos)"
    and "k \<in> {''%2e'', ''%2f'', ''%20'', ''%c0%af'', ''%c0%ae''}"
  shows False
proof -
  have "prefix k inp"
    using assms(2,3) by (intro loop_prefix_transfer[OF assms(2)]) auto
  with assms(3) have "key_at inp" by (auto simp: key_at_iff)
  from loop_head_mapped[OF this assms(1)] obtain c out where
    "apply_mappings_loop om inp pos = c # out" "c = CHR ''.'' \<or> c = CHR ''/'' \<or> c = CHR '' ''"
    by blast
  with assms(2,3) show False by auto
qed

lemma tail_transfer:
  assumes "prefix (CHR ''%'' # k) (c # apply_mappings_loop om cs pos)"
    and "CHR ''.'' \<notin> set k" "CHR ''/'' \<notin> set k" "CHR '' '' \<notin> set k"
  shows "c = CHR ''%'' \<and> prefix (CHR ''%'' # k) (c # cs)"
proof -
  from assms(1) have c: "c = CHR ''%''" and "prefix k (apply_mappings_loop om cs pos)"
    by simp_all
  from loop_prefix_transfer[OF this(2) assms(2,3,4)] c show ?thesis by simp
qed

lemma key_at_Cons_loop:
  assumes "key_at (c # apply_mappings_loop om cs pos)" and "pos + length cs \<le> om"
  shows "c = CHR ''%'' \<and> key_at (c # cs)"
proof -
  let ?R = "apply_mappings_loop om cs pos"
  from assms(1) have
    "prefix ''%2e'' (c # ?R) \<or> prefix ''%2f'' (c # ?R) \<or> prefix ''%20'' (c # ?R) \<or>
     prefix ''%c0%af'' (c # ?R) \<or> prefix ''%c0%ae'' (c # ?R) \<or> prefix ''.%2e/'' (c # ?R)"
    by (simp only: key_at_iff)
  then show ?thesis
  proof (elim disjE)
    assume a: "prefix ''%2e'' (c # ?R)"
    have "c = CHR ''%'' \<and> prefix ''%2e'' (c # cs)"
      by (rule tail_transfer[OF a]) simp_all
    then show ?thesis unfolding key_at_iff by blast
  next
    assume a: "prefix ''%2f'' (c # ?R)"
    have "c = CHR ''%'' \<and> prefix ''%2f'' (c # cs)"
      by (rule tail_transfer[OF a]) simp_all
    then show ?thesis unfolding key_at_iff by blast
  next
    assume a: "prefix ''%20'' (c # ?R)"
    have "c = CHR ''%'' \<and> prefix ''%20'' (c # cs)"
      by (rule tail_transfer[OF a]) simp_all
    then show ?thesis unfolding key_at_iff by blast
  next
    assume a: "prefix ''%c0%af'' (c # ?R)"
    have "c = CHR ''%'' \<and> prefix ''%c0%af'' (c # cs)"
      by (rule tail_transfer[OF a]) simp_all
    then show ?thesis unfolding key_at_iff by blast
  next
    assume a: "prefix ''%c0%ae'' (c # ?R)"
    have "c = CHR ''%'' \<and> prefix ''%c0%ae'' (c # cs)"
      by (rule tail_transfer[OF a]) simp_all
    then show ?thesis unfolding key_at_iff by blast
  next
    assume "prefix ''.%2e/'' (c # ?R)"
    then have "prefix ''%2e/'' ?R" by simp
    then have "prefix ''%2e'' ?R"
      by (rule prefix_order.trans[of "''%2e''" "''%2e/''", rotated]) simp
    from loop_no_percent_key[OF assms(2) this] show ?thesis by simp
  qed
qed

lemma loop_key_free:
  "pos + length inp \<le> om \<Longrightarrow> key_free (apply_mappings_loop om inp pos)"
proof (induction om inp pos rule: apply_mappings_loop.induct)
  case (1 om pos)
  then show ?case by simp
next
  case (2 om c cs pos)
  show ?case
  proof (cases "pos < om - 1")
    case False
    then show ?thesis by simp
  next
    case True
    show ?thesis
    proof (cases "find_mapping uscn_mappings (c # cs) pos om")
      case None
      have inv: "pos + 1 + length cs \<le> om" using "2.prems" by simp
      have kf: "key_free (apply_mappings_loop om cs (pos + 1))"
        using "2.IH"(1)[OF True None] inv by simp
      have "\<not> key_at (c # apply_mappings_loop om cs (pos + 1))"
      proof
        assume "key_at (c # apply_mappings_loop om cs (pos + 1))"
        from key_at_Cons_loop[OF this] inv have "key_at (c # cs)" by blast
        from key_at_find_mapping[OF this "2.prems"] None show False by simp
      qed
      with kf True None show ?thesis by simp
    next
      case (Some m)
      let ?rest = "drop (encoded_len m) (c # cs)"
      let ?R = "apply_mappings_loop om ?rest (pos + canonical_len m)"
      from find_mapping_Some[OF Some] have m: "m \<in> set uscn_mappings"
        "encoded_len m \<le> length (c # cs)" by simp_all
      note tc = table_entry_cases[OF m(1)]
      have "length ?rest = length (c # cs) - encoded_len m" by simp
      then have inv: "pos + canonical_len m + length ?rest \<le> om"
        using tc m(2) "2.prems" by linarith
      have kf: "key_free ?R" using "2.IH"(2)[OF True Some] inv by simp
      have last: "\<not> key_at (x # ?R)" if "x \<noteq> CHR ''%''" for x
        using key_at_Cons_loop[OF _ inv, of x] that by blast
      have eq: "apply_mappings_loop om (c # cs) pos =
                  take (canonical_len m) (canonical_form m) @ ?R"
        using True Some by simp
      from tc have "take (canonical_len m) (canonical_form m) \<in> {''../'', ''/'', ''.'', '' ''}"
        by simp
      then consider "take (canonical_len m) (canonical_form m) = ''../''"
        | "take (canonical_len m) (canonical_form m) = ''/''"
        | "take (canonical_len m) (canonical_form m) = ''.''"
        | "take (canonical_len m) (canonical_form m) = '' ''" by auto
      then show ?thesis
      proof cases
        case 1
        have "\<not> key_at (CHR ''.'' # CHR ''.'' # CHR ''/'' # ?R)"
             "\<not> key_at (CHR ''.'' # CHR ''/'' # ?R)"
          by (simp_all add: key_at_iff)
        with last[of "CHR ''/''"] kf show ?thesis unfolding eq 1 by simp
      next
        case 2
        with last[of "CHR ''/''"] kf show ?thesis unfolding eq by simp
      next
        case 3
        with last[of "CHR ''.''"] kf show ?thesis unfolding eq by simp
      next
        case 4
        with last[of "CHR '' ''"] kf show ?thesis unfolding eq by simp
      qed
    qed
  qed
qed

lemma key_free_loop_id:
  "key_free s \<Longrightarrow> pos + length s < om \<Longrightarrow> apply_mappings_loop om s pos = s"
proof (induction s arbitrary: pos)
  case Nil
  then show ?case by simp
next
  case (Cons c cs)
  have "find_mapping uscn_mappings (c # cs) pos om = None"
  proof (cases "find_mapping uscn_mappings (c # cs) pos om")
    case None
    then show ?thesis .
  next
    case (Some m)
    from find_mapping_Some_key_at[OF Some] Cons.prems(1) show ?thesis by simp
  qed
  moreover have "pos < om - 1" using Cons.prems(2) by simp
  moreover have "apply_mappings_loop om cs (pos + 1) = cs"
    using Cons.prems by (intro Cons.IH) simp_all
  ultimately show ?case by simp
qed

lemma key_at_append: "key_at s \<Longrightarrow> key_at (s @ t)"
  by (auto simp: key_at_iff)

lemma key_free_append_left: "key_free (xs @ ys) \<Longrightarrow> key_free xs"
proof (induction xs)
  case Nil
  then show ?case by simp
next
  case (Cons x xs)
  then show ?case using key_at_append[of "x # xs" ys] by auto
qed

lemma trim_trailing_prefix: "\<exists>t. s = trim_trailing s @ t"
proof -
  have "rev s = takeWhile (\<lambda>c. c = CHR '' '') (rev s) @ dropWhile (\<lambda>c. c = CHR '' '') (rev s)"
    by simp
  then have "s = rev (dropWhile (\<lambda>c. c = CHR '' '') (rev s)) @
                 rev (takeWhile (\<lambda>c. c = CHR '' '') (rev s))"
    by (metis rev_append rev_rev_ident)
  then show ?thesis unfolding trim_trailing_conv by blast
qed

lemma key_free_trim_trailing: "key_free s \<Longrightarrow> key_free (trim_trailing s)"
  using trim_trailing_prefix[of s] key_free_append_left by metis

lemma isspace_space [simp]: "isspace CHR '' ''"
  by (simp add: isspace_def)

lemma whitespace_prefix_transfer:
  "prefix k (whitespace_loop s False) \<Longrightarrow> CHR '' '' \<notin> set k \<Longrightarrow> prefix k s"
proof (induction k arbitrary: s)
  case Nil
  then show ?case by simp
next
  case (Cons c k)
  show ?case
  proof (cases s)
    case Nil
    with Cons.prems show ?thesis by simp
  next
    case (Cons d ds)
    show ?thesis
    proof (cases "isspace d")
      case True
      with Cons.prems \<open>s = d # ds\<close> show ?thesis by simp
    next
      case False
      with Cons.prems \<open>s = d # ds\<close> have "c = d" "prefix k (whitespace_loop ds False)" by simp_all
      with Cons.IH[of ds] Cons.prems(2) \<open>s = d # ds\<close> show ?thesis by simp
    qed
  qed
qed

lemma key_at_space: "\<not> key_at (CHR '' '' # s)"
  by (simp add: key_at_iff)

lemma key_at_whitespace_loop:
  assumes "key_at (c # whitespace_loop s False)"
  shows "key_at (c # s)"
proof -
  have t: "prefix (d # k) (c # whitespace_loop s False) \<Longrightarrow> CHR '' '' \<notin> set k \<Longrightarrow>
           prefix (d # k) (c # s)" for d k
    using whitespace_prefix_transfer[of k s] by simp
  from assms have
    "prefix ''%2e'' (c # whitespace_loop s False) \<or> prefix ''%2f'' (c # whitespace_loop s False) \<or>
     prefix ''%20'' (c # whitespace_loop s False) \<or> prefix ''%c0%af'' (c # whitespace_loop s False) \<or>
     prefix ''%c0%ae'' (c # whitespace_loop s False) \<or> prefix ''.%2e/'' (c # whitespace_loop s False)"
    by (simp only: key_at_iff)
  then show ?thesis
  proof (elim disjE)
    assume a: "prefix ''%2e'' (c # whitespace_loop s False)"
    have "prefix ''%2e'' (c # s)" by (rule t[OF a]) simp
    then show ?thesis unfolding key_at_iff by blast
  next
    assume a: "prefix ''%2f'' (c # whitespace_loop s False)"
    have "prefix ''%2f'' (c # s)" by (rule t[OF a]) simp
    then show ?thesis unfolding key_at_iff by blast
  next
    assume a: "prefix ''%20'' (c # whitespace_loop s False)"
    have "prefix ''%20'' (c # s)" by (rule t[OF a]) simp
    then show ?thesis unfolding key_at_iff by blast
  next
    assume a: "prefix ''%c0%af'' (c # whitespace_loop s False)"
    have "prefix ''%c0%af'' (c # s)" by (rule t[OF a]) simp
    then show ?thesis unfolding key_at_iff by blast
  next
    assume a: "prefix ''%c0%ae'' (c # whitespace_loop s False)"
    have "prefix ''%c0%ae'' (c # s)" by (rule t[OF a]) simp
    then show ?thesis unfolding key_at_iff by blast
  next
    assume a: "prefix ''.%2e/'' (c # whitespace_loop s False)"
    have "prefix ''.%2e/'' (c # s)" by (rule t[OF a]) simp
    then show ?thesis unfolding key_at_iff by blast
  qed
qed

lemma key_free_whitespace_loop: "key_free s \<Longrightarrow> key_free (whitespace_loop s b)"
proof (induction s arbitrary: b)
  case Nil
  then show ?case by simp
next
  case (Cons c cs)
  show ?case
  proof (cases "isspace c")
    case True
    with Cons show ?thesis by (simp add: key_at_space)
  next
    case False
    have "\<not> key_at (c # whitespace_loop cs False)"
      using key_at_whitespace_loop[of c cs] Cons.prems by auto
    with False Cons show ?thesis by simp
  qed
qed

lemma key_free_normalize_whitespace: "key_free s \<Longrightarrow> key_free (normalize_whitespace s)"
  unfolding normalize_whitespace_def
  by (intro key_free_trim_trailing key_free_whitespace_loop)

lemma whitespace_loop_idem: "whitespace_loop (whitespace_loop s b) b = whitespace_loop s b"
  by (induction s arbitrary: b) simp_all

lemma whitespace_loop_append:
  "whitespace_loop (xs @ ys) b =
     whitespace_loop xs b @ whitespace_loop ys (if xs = [] then b else isspace (last xs))"
  by (induction xs arbitrary: b) simp_all

lemma whitespace_loop_fixed_prefix:
  assumes "whitespace_loop (xs @ ys) False = xs @ ys"
  shows "whitespace_loop xs False = xs"
proof -
  let ?b = "if xs = [] then False else isspace (last xs)"
  have e: "whitespace_loop xs False @ whitespace_loop ys ?b = xs @ ys"
    using assms by (simp only: whitespace_loop_append)
  have "length (whitespace_loop xs False) \<le> length xs"
       "length (whitespace_loop ys ?b) \<le> length ys"
    by (rule length_whitespace_loop)+
  moreover have "length (whitespace_loop xs False) + length (whitespace_loop ys ?b) =
                 length xs + length ys"
    using arg_cong[OF e, of length] by simp
  ultimately have "length (whitespace_loop xs False) = length xs" by linarith
  with e show ?thesis by (simp add: append_eq_append_conv)
qed

lemma trim_trailing_idem: "trim_trailing (trim_trailing s) = trim_trailing s"
  by (simp add: trim_trailing_conv)

lemma normalize_whitespace_idem:
  "normalize_whitespace (normalize_whitespace s) = normalize_whitespace s"
proof -
  let ?w = "whitespace_loop s False"
  obtain t where t: "?w = trim_trailing ?w @ t" using trim_trailing_prefix by blast
  have "whitespace_loop (trim_trailing ?w @ t) False = trim_trailing ?w @ t"
    using whitespace_loop_idem[of s False] t by simp
  then have "whitespace_loop (trim_trailing ?w) False = trim_trailing ?w"
    by (rule whitespace_loop_fixed_prefix)
  then show ?thesis by (simp add: normalize_whitespace_def trim_trailing_idem)
qed

lemma isupper_tolower: "\<not> isupper (tolower c)"
  by (simp add: tolower_def isupper_def)

lemma tolower_not_upper: "\<not> isupper c \<Longrightarrow> tolower c = c"
  by (simp add: tolower_def)

lemma map_tolower_id: "\<forall>c\<in>set s. \<not> isupper c \<Longrightarrow> map tolower s = s"
  by (induction s) (simp_all add: tolower_not_upper)

lemma tolower_key_char:
  assumes "tolower c = d" and "\<not> is_upper_hex c"
    and "d \<in> {CHR ''%'', CHR ''2'', CHR ''e'', CHR ''f'', CHR ''0'', CHR ''c'', CHR ''a'',
               CHR ''.'', CHR ''/''}"
  shows "c = d"
proof (cases "isupper c")
  case False
  with assms(1) show ?thesis by (simp add: tolower_def)
next
  case True
  with assms(1) have "of_char d = (of_char (char_of (of_char c + (32::nat))) :: nat)"
    by (simp add: tolower_def)
  also have "\<dots> = of_char c + 32"
    using True by (simp add: isupper_def)
  finally have "(of_char d :: nat) = of_char c + 32" .
  with assms(2,3) True show ?thesis
    by (auto simp: isupper_def is_upper_hex_def)
qed

lemma tolower_prefix_transfer:
  "prefix k (map tolower s) \<Longrightarrow> \<forall>c\<in>set s. \<not> is_upper_hex c \<Longrightarrow>
   set k \<subseteq> {CHR ''%'', CHR ''2'', CHR ''e'', CHR ''f'', CHR ''0'', CHR ''c'', CHR ''a'',
             CHR ''.'', CHR ''/''} \<Longrightarrow>
   prefix k s"
proof (induction k arbitrary: s)
  case Nil
  then show ?case by simp
next
  case (Cons d k)
  from Cons.prems(1) obtain c cs where s: "s = c # cs" by (cases s) auto
  with Cons.prems(1) have td: "tolower c = d" and pk: "prefix k (map tolower cs)" by simp_all
  have nh: "\<not> is_upper_hex c" using Cons.prems(2) s by simp
  have dk: "d \<in> {CHR ''%'', CHR ''2'', CHR ''e'', CHR ''f'', CHR ''0'', CHR ''c'', CHR ''a'',
               CHR ''.'', CHR ''/''}"
    and kk: "set k \<subseteq> {CHR ''%'', CHR ''2'', CHR ''e'', CHR ''f'', CHR ''0'', CHR ''c'', CHR ''a'',
             CHR ''.'', CHR ''/''}"
    using Cons.prems(3) by (simp_all del: insert_subset add: insert_subset[of d "set k"])
  have "c = d" by (rule tolower_key_char[OF td nh dk])
  moreover have "\<forall>c\<in>set cs. \<not> is_upper_hex c" using Cons.prems(2) s by simp
  then have "prefix k cs" by (rule Cons.IH[OF pk _ kk])
  ultimately show ?case using s by simp
qed

lemma key_at_map_tolower:
  assumes "key_at (map tolower s)" and "\<forall>c\<in>set s. \<not> is_upper_hex c"
  shows "key_at s"
proof -
  from assms(1) have
    "prefix ''%2e'' (map tolower s) \<or> prefix ''%2f'' (map tolower s) \<or>
     prefix ''%20'' (map tolower s) \<or> prefix ''%c0%af'' (map tolower s) \<or>
     prefix ''%c0%ae'' (map tolower s) \<or> prefix ''.%2e/'' (map tolower s)"
    by (simp only: key_at_iff)
  then show ?thesis
  proof (elim disjE)
    assume a: "prefix ''%2e'' (map tolower s)"
    have "prefix ''%2e'' s" by (rule tolower_prefix_transfer[OF a assms(2)]) simp
    then show ?thesis unfolding key_at_iff by blast
  next
    assume a: "prefix ''%2f'' (map tolower s)"
    have "prefix ''%2f'' s" by (rule tolower_prefix_transfer[OF a assms(2)]) simp
    then show ?thesis unfolding key_at_iff by blast
  next
    assume a: "prefix ''%20'' (map tolower s)"
    have "prefix ''%20'' s" by (rule tolower_prefix_transfer[OF a assms(2)]) simp
    then show ?thesis unfolding key_at_iff by blast
  next
    assume a: "prefix ''%c0%af'' (map tolower s)"
    have "prefix ''%c0%af'' s" by (rule tolower_prefix_transfer[OF a assms(2)]) simp
    then show ?thesis unfolding key_at_iff by blast
  next
    assume a: "prefix ''%c0%ae'' (map tolower s)"
    have "prefix ''%c0%ae'' s" by (rule tolower_prefix_transfer[OF a assms(2)]) simp
    then show ?thesis unfolding key_at_iff by blast
  next
    assume a: "prefix ''.%2e/'' (map tolower s)"
    have "prefix ''.%2e/'' s" by (rule tolower_prefix_transfer[OF a assms(2)]) simp
    then show ?thesis unfolding key_at_iff by blast
  qed
qed

lemma key_free_map_tolower:
  "key_free s \<Longrightarrow> \<forall>c\<in>set s. \<not> is_upper_hex c \<Longrightarrow> key_free (map tolower s)"
proof (induction s)
  case Nil
  then show ?case by simp
next
  case (Cons c cs)
  have "\<not> key_at (map tolower (c # cs))"
    using key_at_map_tolower[of "c # cs"] Cons.prems by auto
  with Cons show ?case by simp
qed

lemma set_loop_subset:
  "set (apply_mappings_loop om inp pos) \<subseteq> set inp \<union> {CHR ''.'', CHR ''/'', CHR '' ''}"
proof (induction om inp pos rule: apply_mappings_loop.induct)
  case (1 om pos)
  then show ?case by simp
next
  case (2 om c cs pos)
  show ?case
  proof (cases "pos < om - 1")
    case False
    then show ?thesis by simp
  next
    case True
    show ?thesis
    proof (cases "find_mapping uscn_mappings (c # cs) pos om")
      case None
      with True "2.IH"(1)[OF True None] show ?thesis by auto
    next
      case (Some m)
      from find_mapping_Some[OF Some] have "m \<in> set uscn_mappings" by simp
      from table_entry_cases[OF this]
      have "set (take (canonical_len m) (canonical_form m)) \<subseteq> {CHR ''.'', CHR ''/'', CHR '' ''}"
        by auto
      moreover have "set (drop (encoded_len m) (c # cs)) \<subseteq> set (c # cs)"
        by (rule set_drop_subset)
      ultimately show ?thesis
        using True Some "2.IH"(2)[OF True Some] by auto
    qed
  qed
qed

lemma set_whitespace_loop_subset: "set (whitespace_loop s b) \<subseteq> set s \<union> {CHR '' ''}"
  by (induction s arbitrary: b) auto

lemma set_trim_trailing_subset: "set (trim_trailing s) \<subseteq> set s"
  using trim_trailing_prefix[of s] by (metis Un_upper1 set_append)

lemma set_normalize_whitespace_subset: "set (normalize_whitespace s) \<subseteq> set s \<union> {CHR '' ''}"
  unfolding normalize_whitespace_def
  using set_trim_trailing_subset[of "whitespace_loop s False"]
        set_whitespace_loop_subset[of s False] by blast

lemma not_upper_hex_literals [simp]:
  "\<not> is_upper_hex CHR ''.''" "\<not> is_upper_hex CHR ''/''" "\<not> is_upper_hex CHR '' ''"
  "\<not> isupper CHR '' ''"
  by (simp_all add: is_upper_hex_def isupper_def)

section \<open>Normalizer: repeated normalization and upper-case hex digits\<close>

lemma uscn_reduce_flags:
  "uscn_reduce (nz\<lparr>canonical_buffer := cb, buffer_used := n\<rparr>) s = uscn_reduce nz s"
  by (simp add: uscn_reduce_def)

lemma acm_key_free:
  "length x \<le> USCN_CANONICAL_BUFFER_SIZE \<Longrightarrow>
   key_free (apply_character_mappings x USCN_CANONICAL_BUFFER_SIZE)"
  unfolding apply_character_mappings_def by (rule loop_key_free) simp

lemma acm_key_free_id:
  "key_free y \<Longrightarrow> length y < USCN_CANONICAL_BUFFER_SIZE \<Longrightarrow>
   apply_character_mappings y USCN_CANONICAL_BUFFER_SIZE = y"
  unfolding apply_character_mappings_def by (rule key_free_loop_id) simp_all

lemma acm_no_upper_hex:
  assumes "\<forall>c\<in>set x. \<not> is_upper_hex c"
  shows "\<forall>c\<in>set (apply_character_mappings x USCN_CANONICAL_BUFFER_SIZE). \<not> is_upper_hex c"
proof
  fix c assume "c \<in> set (apply_character_mappings x USCN_CANONICAL_BUFFER_SIZE)"
  then have "c \<in> set x \<union> {CHR ''.'', CHR ''/'', CHR '' ''}"
    using set_loop_subset[of USCN_CANONICAL_BUFFER_SIZE x 0]
    by (auto simp: apply_character_mappings_def)
  with assms show "\<not> is_upper_hex c" by auto
qed

lemma folded_key_free_without_upper_hex:
  assumes "length x \<le> USCN_CANONICAL_BUFFER_SIZE"
    and "case_sensitive nz \<or> (\<forall>c\<in>set x. \<not> is_upper_hex c)"
  shows "key_free (normalize_case (apply_character_mappings x USCN_CANONICAL_BUFFER_SIZE)
                     (case_sensitive nz))"
proof (cases "case_sensitive nz")
  case True
  then show ?thesis using acm_key_free[OF assms(1)] by (simp add: normalize_case_def)
next
  case False
  with assms(2) have "\<forall>c\<in>set x. \<not> is_upper_hex c" by simp
  from key_free_map_tolower[OF acm_key_free[OF assms(1)] acm_no_upper_hex[OF this]] False
  show ?thesis by (simp add: normalize_case_def)
qed

lemma uscn_reduce_canonical:
  assumes "key_free (normalize_case (apply_character_mappings x USCN_CANONICAL_BUFFER_SIZE)
                       (case_sensitive nz))"
  shows "key_free (uscn_reduce nz x)"
    and "\<not> case_sensitive nz \<Longrightarrow> \<forall>c\<in>set (uscn_reduce nz x). \<not> isupper c"
    and "whitespace_normalize nz \<Longrightarrow> normalize_whitespace (uscn_reduce nz x) = uscn_reduce nz x"
proof -
  let ?m = "apply_character_mappings x USCN_CANONICAL_BUFFER_SIZE"
  let ?c = "normalize_case ?m (case_sensitive nz)"
  have r: "uscn_reduce nz x = (if whitespace_normalize nz then normalize_whitespace ?c else ?c)"
    by (simp add: uscn_reduce_def Let_def)
  have kc: "key_free ?c" by (rule assms)
  show "key_free (uscn_reduce nz x)"
    unfolding r using kc by (simp add: key_free_normalize_whitespace)
  show "normalize_whitespace (uscn_reduce nz x) = uscn_reduce nz x" if "whitespace_normalize nz"
    unfolding r using that by (simp add: normalize_whitespace_idem)
  show "\<forall>c\<in>set (uscn_reduce nz x). \<not> isupper c" if ncs: "\<not> case_sensitive nz"
  proof
    fix c assume c: "c \<in> set (uscn_reduce nz x)"
    have lc: "\<forall>d\<in>set ?c. \<not> isupper d"
      using ncs by (auto simp: normalize_case_def isupper_tolower)
    have "c \<in> set ?c \<union> {CHR '' ''}"
      using c set_normalize_whitespace_subset[of ?c] unfolding r by (auto split: if_splits)
    with lc show "\<not> isupper c" by auto
  qed
qed

lemma uscn_reduce_fixed:
  assumes "key_free y" and "length y < USCN_CANONICAL_BUFFER_SIZE"
    and "\<not> case_sensitive nz \<Longrightarrow> \<forall>c\<in>set y. \<not> isupper c"
    and "whitespace_normalize nz \<Longrightarrow> normalize_whitespace y = y"
  shows "uscn_reduce nz y = y"
proof -
  have c: "normalize_case y (case_sensitive nz) = y"
    using assms(3) by (cases "case_sensitive nz") (simp_all add: normalize_case_def map_tolower_id)
  show ?thesis
    using assms(4) by (simp add: uscn_reduce_def acm_key_free_id[OF assms(1,2)] c)
qed

lemma uscn_reduce_idem:
  assumes "length x \<le> USCN_CANONICAL_BUFFER_SIZE"
    and "key_free (normalize_case (apply_character_mappings x USCN_CANONICAL_BUFFER_SIZE)
                     (case_sensitive nz))"
  shows "uscn_reduce nz (uscn_reduce nz x) = uscn_reduce nz x"
  by (rule uscn_reduce_fixed)
     (use uscn_reduce_canonical[OF assms(2)] assms(1) length_uscn_reduce[of nz x] in simp_all)

text \<open>
  Claim C1 fails on the code.  The normalizer is built case-insensitive
  (\<open>case_sensitive = false\<close>, from the schema's \<open>case_sensitivity: false\<close>), and
  \<open>is_hex_digit\<close> takes the upper-case digits \<open>A\<close> to \<open>F\<close> as hex digits; but the
  mapping pass compares the lower-case table keys byte for byte, and the case is folded
  only after the pass.  So the input \<open>%2E\<close> is normalized to \<open>%2e\<close>, which is not canonical:
  normalizing it again gives \<open>.\<close>.
\<close>

theorem normalization_not_idempotent_upper_hex:
  "obi_normalize_buffer
     \<lparr>nz_initialized = True, case_sensitive = False, whitespace_normalize = True,
      canonical_buffer = [], buffer_used = 0\<rparr>
     \<lparr>data = ''%2E'', max_size = 8192, security_level = 0, normalized = False,
      validated = False, cost_value = 0, governance_zone = OBI_ZONE_AUTONOMOUS,
      pattern_hash = replicate 32 0\<rparr> =
     (OBI_SUCCESS,
      \<lparr>nz_initialized = True, case_sensitive = False, whitespace_normalize = True,
       canonical_buffer = ''%2e'', buffer_used = 3\<rparr>,
      \<lparr>data = ''%2e'', max_size = 8192, security_level = 0, normalized = True,
       validated = False, cost_value = 0, governance_zone = OBI_ZONE_AUTONOMOUS,
       pattern_hash = replicate 32 0\<rparr>) \<and>
   obi_normalize_buffer
     \<lparr>nz_initialized = True, case_sensitive = False, whitespace_normalize = True,
      canonical_buffer = ''%2e'', buffer_used = 3\<rparr>
     \<lparr>data = ''%2e'', max_size = 8192, security_level = 0, normalized = True,
      validated = False, cost_value = 0, governance_zone = OBI_ZONE_AUTONOMOUS,
      pattern_hash = replicate 32 0\<rparr> =
     (OBI_SUCCESS,
      \<lparr>nz_initialized = True, case_sensitive = False, whitespace_normalize = True,
       canonical_buffer = ''.'', buffer_used = 1\<rparr>,
      \<lparr>data = ''.'', max_size = 8192, security_level = 0, normalized = True,
       validated = False, cost_value = 0, governance_zone = OBI_ZONE_AUTONOMOUS,
       pattern_hash = replicate 32 0\<rparr>)"
  by (simp add: obi_normalize_buffer_def apply_character_mappings_def
      USCN_CANONICAL_BUFFER_SIZE_def uscn_mappings_def normalize_case_def tolower_def
      isupper_def char_of_def bit_iff_odd normalize_whitespace_def isspace_def
      trim_trailing.simps Let_def)

text \<open>
  The defect shows only where folding the case of the output of the mapping pass creates
  a table key.  Where it creates none, a second call of \<open>obi_normalize_buffer\<close> leaves the
  buffer as the first call left it.
\<close>

lemma normalization_idempotent_when_folded_key_free:
  assumes "length (data b) \<le> 8192"
    and "key_free (normalize_case
                     (apply_character_mappings (data b) USCN_CANONICAL_BUFFER_SIZE)
                     (case_sensitive nz))"
    and "obi_normalize_buffer nz b = (r, nz', b')"
  shows "snd (snd (obi_normalize_buffer nz' b')) = b'"
proof (cases "nz_initialized nz")
  case False
  with assms(3) have "nz' = nz" "b' = b" by (simp_all add: obi_normalize_buffer_def)
  with False show ?thesis by (simp add: obi_normalize_buffer_def)
next
  case True
  let ?y = "uscn_reduce nz (data b)"
  have len: "length (data b) \<le> USCN_CANONICAL_BUFFER_SIZE"
    using assms(1) by (simp add: USCN_CANONICAL_BUFFER_SIZE_def)
  have idem: "uscn_reduce nz ?y = ?y" by (rule uscn_reduce_idem[OF len assms(2)])
  note eq = obi_normalize_buffer_eq[OF True, of b]
  consider (empty) "data b = []"
    | (overflow) "data b \<noteq> []" "max_size b < length ?y"
    | (ok) "data b \<noteq> []" "\<not> max_size b < length ?y" by blast
  then show ?thesis
  proof cases
    case empty
    with eq assms(3) have "nz' = nz" "b' = b" by simp_all
    with empty True show ?thesis by (simp add: obi_normalize_buffer_eq)
  next
    case overflow
    with eq assms(3) have n: "nz' = nz\<lparr>canonical_buffer := ?y, buffer_used := length ?y\<rparr>"
      and b: "b' = b" by simp_all
    have i: "nz_initialized nz'" using True n by simp
    have r: "uscn_reduce nz' (data b) = ?y"
      unfolding n uscn_reduce_flags ..
    have "snd (snd (obi_normalize_buffer nz' b)) = b"
      using overflow by (simp add: obi_normalize_buffer_eq[OF i, of b] r)
    then show ?thesis by (simp only: b)
  next
    case ok
    with eq assms(3) have n: "nz' = nz\<lparr>canonical_buffer := ?y, buffer_used := length ?y\<rparr>"
      and b: "b' = b\<lparr>data := ?y, normalized := True\<rparr>" by simp_all
    have i: "nz_initialized nz'" using True n by simp
    have r: "uscn_reduce nz' (data b') = ?y"
      unfolding n b uscn_reduce_flags using idem by simp
    have m: "\<not> max_size b' < length ?y" using ok(2) b by simp
    have d: "b'\<lparr>data := ?y, normalized := True\<rparr> = b'" using b by simp
    show ?thesis
      using m d by (simp add: obi_normalize_buffer_eq[OF i, of b'] r)
  qed
qed

text \<open>That is so for every input without the letters \<open>A\<close> to \<open>F\<close>, and for every input
  when the normalizer is case-sensitive.\<close>

lemma normalization_idempotent_without_upper_hex:
  assumes "length (data b) \<le> 8192"
    and "case_sensitive nz \<or> (\<forall>c\<in>set (data b). \<not> is_upper_hex c)"
    and "obi_normalize_buffer nz b = (r, nz', b')"
  shows "snd (snd (obi_normalize_buffer nz' b')) = b'"
proof -
  have "length (data b) \<le> USCN_CANONICAL_BUFFER_SIZE"
    using assms(1) by (simp add: USCN_CANONICAL_BUFFER_SIZE_def)
  from normalization_idempotent_when_folded_key_free
         [OF assms(1) folded_key_free_without_upper_hex[OF this assms(2)] assms(3)]
  show ?thesis .
qed

lemma table_entry_lengths:
  "m \<in> set uscn_mappings \<Longrightarrow>
     length (encoded_form m) = encoded_len m \<and> length (canonical_form m) = canonical_len m"
  by (auto simp: uscn_mappings_def)

text \<open>
  Claim C3 fails on the code.  The table is meant to be case-insensitive on hex digits
  (\<open>is_hex_digit\<close> takes \<open>A\<close> to \<open>F\<close>, and the normalizer is built with
  \<open>case_sensitive = false\<close>), but the mapping pass compares its lower-case keys byte for
  byte.  It leaves the upper-case spelling \<open>%2E\<close> as it is and reduces the lower-case
  spelling \<open>%2e\<close> to \<open>.\<close>; after case and whitespace folding the two inputs end as the
  different forms \<open>%2e\<close> and \<open>.\<close>.  In the same way \<open>%2E%2E%2F\<close> ends as \<open>%2e%2e%2f\<close>, an
  encoded path traversal, where \<open>%2e%2e%2f\<close> ends as \<open>../\<close>.
\<close>

theorem mapping_pass_upper_case_not_reduced:
  "apply_character_mappings ''%2E'' USCN_CANONICAL_BUFFER_SIZE = ''%2E'' \<and>
   apply_character_mappings ''%2e'' USCN_CANONICAL_BUFFER_SIZE = ''.'' \<and>
   uscn_reduce \<lparr>nz_initialized = True, case_sensitive = False, whitespace_normalize = True,
                canonical_buffer = [], buffer_used = 0\<rparr> ''%2E'' = ''%2e'' \<and>
   uscn_reduce \<lparr>nz_initialized = True, case_sensitive = False, whitespace_normalize = True,
                canonical_buffer = [], buffer_used = 0\<rparr> ''%2e'' = ''.'' \<and>
   apply_character_mappings ''%2E%2E%2F'' USCN_CANONICAL_BUFFER_SIZE = ''%2E%2E%2F'' \<and>
   apply_character_mappings ''%2e%2e%2f'' USCN_CANONICAL_BUFFER_SIZE = ''../'' \<and>
   uscn_reduce \<lparr>nz_initialized = True, case_sensitive = False, whitespace_normalize = True,
                canonical_buffer = [], buffer_used = 0\<rparr> ''%2E%2E%2F'' = ''%2e%2e%2f'' \<and>
   uscn_reduce \<lparr>nz_initialized = True, case_sensitive = False, whitespace_normalize = True,
                canonical_buffer = [], buffer_used = 0\<rparr> ''%2e%2e%2f'' = ''../''"
  by (simp add: uscn_reduce_def apply_character_mappings_def
      USCN_CANONICAL_BUFFER_SIZE_def uscn_mappings_def normalize_case_def tolower_def
      isupper_def char_of_def bit_iff_odd normalize_whitespace_def isspace_def
      trim_trailing.simps Let_def)

text \<open>
  What the pass does: it matches the table keys byte for byte.  An input of fewer than
  8192 bytes in which no table key occurs in the table's own spelling is returned
  unchanged.  An input of at most 8192 bytes that starts with a table key in that spelling
  is rewritten at its head: the pass emits the canonical form of the first table entry
  with such a key and goes on behind the key.
\<close>

lemma mapping_pass_matches_exact_spelling:
  "(key_free s \<and> length s < USCN_CANONICAL_BUFFER_SIZE \<longrightarrow>
      apply_character_mappings s USCN_CANONICAL_BUFFER_SIZE = s) \<and>
   (key_at s \<and> length s \<le> USCN_CANONICAL_BUFFER_SIZE \<longrightarrow>
      (\<exists>m. find_mapping uscn_mappings s 0 USCN_CANONICAL_BUFFER_SIZE = Some m \<and>
           prefix (encoded_form m) s \<and>
           apply_character_mappings s USCN_CANONICAL_BUFFER_SIZE =
             canonical_form m @
             apply_mappings_loop USCN_CANONICAL_BUFFER_SIZE
               (drop (length (encoded_form m)) s) (length (canonical_form m))))"
proof (intro conjI impI)
  assume "key_free s \<and> length s < USCN_CANONICAL_BUFFER_SIZE"
  then show "apply_character_mappings s USCN_CANONICAL_BUFFER_SIZE = s"
    by (simp add: acm_key_free_id)
next
  let ?om = USCN_CANONICAL_BUFFER_SIZE
  assume a: "key_at s \<and> length s \<le> ?om"
  then have k: "key_at s" and l: "0 + length s \<le> ?om" by simp_all
  from key_at_length[OF k] obtain d ds where s: "s = d # ds" by (cases s) auto
  from key_at_find_mapping[OF k l] obtain m where
    m: "find_mapping uscn_mappings s 0 ?om = Some m" by auto
  note fm = find_mapping_Some[OF m]
  from fm have mem: "m \<in> set uscn_mappings" by simp
  note tl = table_entry_lengths[OF mem]
  have p: "prefix (encoded_form m) s"
    using fm tl take_eq_prefix[of "encoded_form m" "encoded_len m" s] by simp
  have "apply_character_mappings s ?om =
          canonical_form m @
          apply_mappings_loop ?om (drop (length (encoded_form m)) s) (length (canonical_form m))"
    using m tl unfolding apply_character_mappings_def s
    by (simp add: USCN_CANONICAL_BUFFER_SIZE_def)
  with m p show "\<exists>m. find_mapping uscn_mappings s 0 ?om = Some m \<and>
           prefix (encoded_form m) s \<and>
           apply_character_mappings s ?om =
             canonical_form m @
             apply_mappings_loop ?om (drop (length (encoded_form m)) s) (length (canonical_form m))"
    by blast
qed

section \<open>Automaton: the transition table and runs\<close>

lemma fold_set_transition_other:
  "s' \<noteq> s \<Longrightarrow> fold (\<lambda>i t. set_transition t s i v) xs t s' = t s'"
  by (induction xs arbitrary: t) (simp_all add: set_transition_def)

lemma fold_cond_set_transition_other:
  "s' \<noteq> s \<Longrightarrow> fold (\<lambda>i t. if P i then set_transition t s i v else t) xs t s' = t s'"
  by (induction xs arbitrary: t) (simp_all add: set_transition_def)

lemma fold_set_transition_bound:
  "\<forall>s c. t s c < n \<Longrightarrow> v < n \<Longrightarrow> fold (\<lambda>i t. set_transition t s i v) xs t s' c' < n"
  by (induction xs arbitrary: t) (simp_all add: set_transition_def)

lemma fold_cond_set_transition_bound:
  "\<forall>s c. t s c < n \<Longrightarrow> v < n \<Longrightarrow>
     fold (\<lambda>i t. if P i then set_transition t s i v else t) xs t s' c' < n"
  by (induction xs arbitrary: t) (simp_all add: set_transition_def)

lemma set_transition_bound:
  "\<forall>s c. t s c < n \<Longrightarrow> v < n \<Longrightarrow> \<forall>s' c'. set_transition t s c v s' c' < n"
  by (simp add: set_transition_def)

lemma build_transition_table_reject_row: "build_transition_table 5 c = 5"
  by (simp add: build_transition_table_def Let_def fold_set_transition_other
      fold_cond_set_transition_other set_transition_def)

lemma build_transition_table_row0:
  "build_transition_table 0 c =
     (if c = 13 \<or> c = 10 \<or> c = 9 \<or> c = 32 then 0 else if c = 123 then 1 else 5)"
  by (simp add: build_transition_table_def Let_def fold_set_transition_other
      fold_cond_set_transition_other set_transition_def)

lemma build_transition_table_row1:
  "build_transition_table (Suc 0) c =
     (if c = 125 then 4 else if c = 32 then 1 else if c = 34 then 2 else 5)"
  by (simp add: build_transition_table_def Let_def fold_set_transition_other
      fold_cond_set_transition_other set_transition_def)

lemma build_transition_table_bound: "build_transition_table s c < 6"
  unfolding build_transition_table_def Let_def
  by (intro set_transition_bound[rule_format] fold_set_transition_bound
      fold_cond_set_transition_bound allI) simp_all

lemma normalize_character_brace [simp]:
  "normalize_character CHR ''{'' = CHR ''{''"
  "normalize_character CHR ''}'' = CHR ''}''"
  "normalize_character CHR '' '' = CHR '' ''"
  by code_simp+

lemma process_loop_append_failed:
  "process_loop a xs = (r, a') \<Longrightarrow> r \<noteq> OBI_SUCCESS \<Longrightarrow> process_loop a (xs @ ys) = (r, a')"
proof (induction xs arbitrary: a)
  case Nil
  then show ?case by simp
next
  case (Cons x xs)
  then show ?case
    by (auto simp: Let_def split: if_splits)
qed

lemma process_loop_success_not_reject:
  "process_loop a xs = (OBI_SUCCESS, a') \<Longrightarrow> current_state a \<noteq> 5 \<Longrightarrow> current_state a' \<noteq> 5"
proof (induction xs arbitrary: a)
  case Nil
  then show ?case by simp
next
  case (Cons x xs)
  then show ?case
    by (auto simp: Let_def split: if_splits)
qed

lemma process_loop_failed_result:
  "process_loop a xs = (r, a') \<Longrightarrow> r \<noteq> OBI_SUCCESS \<Longrightarrow>
   \<forall>s c. transition_table a s c < state_count a \<Longrightarrow> r = OBI_ERROR_VALIDATION_FAILED"
proof (induction xs arbitrary: a)
  case Nil
  then show ?case by simp
next
  case (Cons x xs)
  have nb: "\<not> state_count a \<le> transition_table a s c" for s c
    using Cons.prems(3) by (simp add: not_le)
  show ?case
    using Cons.prems Cons.IH nb
    by (auto simp: Let_def split: if_splits)
qed

lemma created_automaton:
  assumes "obi_automaton_create True = (OBI_SUCCESS, Some a)"
  shows "au_initialized a" "state_count a = 6" "transition_table a = build_transition_table"
        "states a = initialize_default_states"
  using assms by (auto simp: obi_automaton_create_def)

text \<open>
  Claim C7.  In the automaton that \<open>obi_automaton_create\<close> builds, every transition out of
  the reject state 5 leads to state 5.  And whenever \<open>obi_automaton_process\<close> ends in the
  reject state on an input \<open>xs\<close>, it returns the same failure \<open>VALIDATION_FAILED\<close>, in the
  same state, on every extension \<open>xs @ ys\<close> of that input.
\<close>

theorem reject_state_absorbing:
  assumes "obi_automaton_create True = (OBI_SUCCESS, Some a)"
    and "current_state (fst (snd (obi_automaton_process a (b\<lparr>data := xs\<rparr>)))) = 5"
  shows "transition_table a 5 c = 5 \<and>
         fst (obi_automaton_process a (b\<lparr>data := xs\<rparr>)) = OBI_ERROR_VALIDATION_FAILED \<and>
         fst (obi_automaton_process a (b\<lparr>data := xs @ ys\<rparr>)) = OBI_ERROR_VALIDATION_FAILED \<and>
         current_state (fst (snd (obi_automaton_process a (b\<lparr>data := xs @ ys\<rparr>)))) = 5"
proof -
  note ca = created_automaton[OF assms(1)]
  define a0 where "a0 = a\<lparr>current_state := 0, pattern_buffer := []\<rparr>"
  obtain r a1 where run: "process_loop a0 xs = (r, a1)" by (cases "process_loop a0 xs")
  have bound: "\<forall>s c. transition_table a0 s c < state_count a0"
    by (simp add: a0_def ca build_transition_table_bound)
  have failed: "r \<noteq> OBI_SUCCESS"
  proof
    assume s: "r = OBI_SUCCESS"
    then have "current_state a1 \<noteq> 5"
      using process_loop_success_not_reject[of a0 xs a1] run by (simp add: a0_def)
    moreover have "current_state (fst (snd (obi_automaton_process a (b\<lparr>data := xs\<rparr>)))) = current_state a1"
      using run s ca(1) by (simp add: obi_automaton_process_def a0_def[symmetric] Let_def)
    ultimately show False using assms(2) by simp
  qed
  then have r: "r = OBI_ERROR_VALIDATION_FAILED"
    using process_loop_failed_result[OF run _ bound] by simp
  have st: "current_state a1 = 5"
    using assms(2) run failed ca(1) by (simp add: obi_automaton_process_def a0_def[symmetric] Let_def)
  have ext: "process_loop a0 (xs @ ys) = (r, a1)"
    by (rule process_loop_append_failed[OF run failed])
  show ?thesis
    using run ext r st ca(1)
    by (simp add: obi_automaton_process_def a0_def[symmetric] Let_def ca(3)
        build_transition_table_reject_row)
qed

text \<open>Witness for C7: the input \<open>{x\<close> is rejected at its second byte, and so is \<open>{x}\<close>.\<close>

theorem reject_state_absorbing_witness:
  "obi_automaton_create True =
     (OBI_SUCCESS, Some \<lparr>au_initialized = True, current_state = 0, state_count = 6,
        states = initialize_default_states, transition_table = build_transition_table,
        pattern_buffer = [], canonical_hash = 0\<rparr>) \<and>
   current_state (fst (snd (obi_automaton_process
      \<lparr>au_initialized = True, current_state = 0, state_count = 6,
        states = initialize_default_states, transition_table = build_transition_table,
        pattern_buffer = [], canonical_hash = 0\<rparr>
      \<lparr>data = ''{x'', max_size = 8192, security_level = 0, normalized = True,
        validated = False, cost_value = 0, governance_zone = OBI_ZONE_AUTONOMOUS,
        pattern_hash = replicate 32 0\<rparr>))) = 5 \<and>
   fst (obi_automaton_process
      \<lparr>au_initialized = True, current_state = 0, state_count = 6,
        states = initialize_default_states, transition_table = build_transition_table,
        pattern_buffer = [], canonical_hash = 0\<rparr>
      \<lparr>data = ''{x}'', max_size = 8192, security_level = 0, normalized = True,
        validated = False, cost_value = 0, governance_zone = OBI_ZONE_AUTONOMOUS,
        pattern_hash = replicate 32 0\<rparr>) = OBI_ERROR_VALIDATION_FAILED"
proof -
  define a where "a = \<lparr>au_initialized = True, current_state = 0, state_count = 6,
        states = initialize_default_states, transition_table = build_transition_table,
        pattern_buffer = [], canonical_hash = (0 :: 32 word)\<rparr>"
  define b where "b = \<lparr>data = ''{x'', max_size = 8192, security_level = 0, normalized = True,
        validated = False, cost_value = 0 :: real, governance_zone = OBI_ZONE_AUTONOMOUS,
        pattern_hash = replicate 32 (0 :: 8 word)\<rparr>"
  have c: "obi_automaton_create True = (OBI_SUCCESS, Some a)"
    by (simp add: obi_automaton_create_def a_def)
  have nx: "normalize_character CHR ''x'' = CHR ''x''" by code_simp
  have s: "current_state (fst (snd (obi_automaton_process a (b\<lparr>data := ''{x''\<rparr>)))) = 5"
    by (simp add: obi_automaton_process_def a_def b_def Let_def nx DFA_PATTERN_BUFFER_SIZE_def
        build_transition_table_row0 build_transition_table_row1)
  from reject_state_absorbing[OF c s, where ys = "''}''"] s c
  show ?thesis by (simp add: a_def b_def)
qed

lemma take_snoc_if:
  "(if length (take N xs) < N then take N xs @ [x] else take N xs) = take N (xs @ [x])"
  by (cases "length xs < N") simp_all

lemma process_loop_spaces:
  assumes "transition_table a = build_transition_table" "state_count a = 6"
    "current_state a = 1" "length (pattern_buffer a) \<le> DFA_PATTERN_BUFFER_SIZE - 1"
  shows "process_loop a (replicate n CHR '' '' @ rest) =
         process_loop (a\<lparr>pattern_buffer :=
            take (DFA_PATTERN_BUFFER_SIZE - 1) (pattern_buffer a @ replicate n CHR '' '')\<rparr>) rest"
  using assms
proof (induction n arbitrary: a)
  case 0
  then show ?case by simp
next
  case (Suc n)
  define a1 where "a1 = (if length (pattern_buffer a) < DFA_PATTERN_BUFFER_SIZE - 1
                       then a\<lparr>pattern_buffer := pattern_buffer a @ [CHR '' '']\<rparr> else a)"
  have a1: "transition_table a1 = build_transition_table" "state_count a1 = 6"
    "current_state a1 = 1" "length (pattern_buffer a1) \<le> DFA_PATTERN_BUFFER_SIZE - 1"
    using Suc.prems by (auto simp: a1_def)
  have cs: "a1\<lparr>current_state := Suc 0\<rparr> = a1"
    using a1(3) by (cases a1) simp
  have step: "process_loop a (replicate (Suc n) CHR '' '' @ rest) =
              process_loop a1 (replicate n CHR '' '' @ rest)"
  proof -
    have "process_loop a (replicate (Suc n) CHR '' '' @ rest) =
          process_loop (a1\<lparr>current_state := Suc 0\<rparr>) (replicate n CHR '' '' @ rest)"
      using Suc.prems(1,2,3)
      by (simp add: Let_def a1_def build_transition_table_row1)
    then show ?thesis by (simp only: cs)
  qed
  have pb: "take (DFA_PATTERN_BUFFER_SIZE - 1) (pattern_buffer a1 @ replicate n CHR '' '') =
            take (DFA_PATTERN_BUFFER_SIZE - 1) (pattern_buffer a @ replicate (Suc n) CHR '' '')"
  proof (cases "length (pattern_buffer a) < DFA_PATTERN_BUFFER_SIZE - 1")
    case True
    then have "pattern_buffer a1 @ replicate n CHR '' '' =
               pattern_buffer a @ replicate (Suc n) CHR '' ''"
      by (simp add: a1_def)
    then show ?thesis by (simp only:)
  next
    case False
    with Suc.prems(4) have "length (pattern_buffer a) = DFA_PATTERN_BUFFER_SIZE - 1" by simp
    then show ?thesis using False by (simp add: a1_def del: replicate_Suc)
  qed
  have eq: "a1\<lparr>pattern_buffer := p\<rparr> = a\<lparr>pattern_buffer := p\<rparr>" for p
    by (simp add: a1_def)
  show ?case
    unfolding step Suc.IH[OF a1] pb eq ..
qed

text \<open>
  Claim C10.  The automaton built by \<open>obi_automaton_create\<close> accepts the empty object: on
  \<open>{\<close>, any number of spaces (none for the two-byte input \<open>{}\<close>) and \<open>}\<close> the run
  consumes the whole input, ends in the accepting state 4 and returns \<open>OBI_SUCCESS\<close>, and
  the pattern hash is stored on the buffer.
\<close>

theorem automaton_accepts_empty_object:
  assumes "obi_automaton_create True = (OBI_SUCCESS, Some a)"
    and "data b = CHR ''{'' # replicate n CHR '' '' @ ''}''"
  shows "\<exists>a'. obi_automaton_process a b =
           (OBI_SUCCESS, a',
            b\<lparr>pattern_hash := store_pattern_hash (canonical_hash a') (pattern_hash b)\<rparr>) \<and>
          current_state a' = 4 \<and> is_accepting (states a' ! current_state a') \<and>
          canonical_hash a' = calculate_pattern_hash (pattern_buffer a') \<and>
          pattern_buffer a' = take (DFA_PATTERN_BUFFER_SIZE - 1) (data b)"
proof -
  note ca = created_automaton[OF assms(1)]
  define a0 where "a0 = a\<lparr>current_state := 0, pattern_buffer := []\<rparr>"
  define a1 where "a1 = a0\<lparr>pattern_buffer := ''{'', current_state := 1\<rparr>"
  define a2 where "a2 = a1\<lparr>pattern_buffer :=
            take (DFA_PATTERN_BUFFER_SIZE - 1) (pattern_buffer a1 @ replicate n CHR '' '')\<rparr>"
  define a3 where "a3 = (if length (pattern_buffer a2) < DFA_PATTERN_BUFFER_SIZE - 1
                         then a2\<lparr>pattern_buffer := pattern_buffer a2 @ ''}''\<rparr> else a2)
                        \<lparr>current_state := 4\<rparr>"
  have s1: "process_loop a0 (data b) = process_loop a1 (replicate n CHR '' '' @ ''}'')"
    by (simp add: assms(2) a0_def a1_def ca Let_def DFA_PATTERN_BUFFER_SIZE_def
        build_transition_table_row0)
  have s2: "process_loop a1 (replicate n CHR '' '' @ ''}'') = process_loop a2 ''}''"
    unfolding a2_def
    by (rule process_loop_spaces) (simp_all add: a1_def a0_def ca DFA_PATTERN_BUFFER_SIZE_def)
  have a2: "transition_table a2 = build_transition_table" "state_count a2 = 6"
    "current_state a2 = 1"
    by (simp_all add: a2_def a1_def a0_def ca)
  have s3: "process_loop a2 ''}'' = (OBI_SUCCESS, a3)"
    using a2 by (simp add: a3_def Let_def build_transition_table_row1)
  have run: "process_loop a0 (data b) = (OBI_SUCCESS, a3)"
    unfolding s1 s2 s3 ..
  have cs: "current_state a3 = 4" by (simp add: a3_def)
  have st: "states a3 = initialize_default_states"
    by (simp add: a3_def a2_def a1_def a0_def ca)
  have acc: "is_accepting (states a3 ! current_state a3)"
    by (simp add: cs st initialize_default_states_def)
  have pb2: "pattern_buffer a2 = take (DFA_PATTERN_BUFFER_SIZE - 1) (CHR ''{'' # replicate n CHR '' '')"
    by (simp add: a2_def a1_def del: take_Cons_numeral)
  have "pattern_buffer a3 =
          (if length (take (DFA_PATTERN_BUFFER_SIZE - 1) (CHR ''{'' # replicate n CHR '' ''))
                < DFA_PATTERN_BUFFER_SIZE - 1
           then take (DFA_PATTERN_BUFFER_SIZE - 1) (CHR ''{'' # replicate n CHR '' '') @ ''}''
           else take (DFA_PATTERN_BUFFER_SIZE - 1) (CHR ''{'' # replicate n CHR '' ''))"
    unfolding pb2[symmetric] by (simp add: a3_def)
  also have "\<dots> = take (DFA_PATTERN_BUFFER_SIZE - 1) ((CHR ''{'' # replicate n CHR '' '') @ ''}'')"
    by (rule take_snoc_if)
  finally have pb: "pattern_buffer a3 = take (DFA_PATTERN_BUFFER_SIZE - 1) (data b)"
    by (simp only: assms(2) append_Cons)
  let ?a' = "a3\<lparr>canonical_hash := calculate_pattern_hash (pattern_buffer a3)\<rparr>"
  have "obi_automaton_process a b =
          (OBI_SUCCESS, ?a',
           b\<lparr>pattern_hash := store_pattern_hash (canonical_hash ?a') (pattern_hash b)\<rparr>)"
    using ca(1) run acc
    by (simp add: obi_automaton_process_def a0_def[symmetric] Let_def)
  moreover have "current_state ?a' = 4" using cs by simp
  moreover have "is_accepting (states ?a' ! current_state ?a')" using acc by simp
  moreover have "canonical_hash ?a' = calculate_pattern_hash (pattern_buffer ?a')" by simp
  moreover have "pattern_buffer ?a' = take (DFA_PATTERN_BUFFER_SIZE - 1) (data b)"
    using pb by simp
  ultimately show ?thesis by blast
qed

text \<open>Witness for C10: the two-byte input \<open>{}\<close>.\<close>

theorem automaton_accepts_empty_object_witness:
  "obi_automaton_create True =
     (OBI_SUCCESS, Some \<lparr>au_initialized = True, current_state = 0, state_count = 6,
        states = initialize_default_states, transition_table = build_transition_table,
        pattern_buffer = [], canonical_hash = 0\<rparr>) \<and>
   fst (obi_automaton_process
      \<lparr>au_initialized = True, current_state = 0, state_count = 6,
        states = initialize_default_states, transition_table = build_transition_table,
        pattern_buffer = [], canonical_hash = 0\<rparr>
      \<lparr>data = ''{}'', max_size = 8192, security_level = 0, normalized = True,
        validated = False, cost_value = 0, governance_zone = OBI_ZONE_AUTONOMOUS,
        pattern_hash = replicate 32 0\<rparr>) = OBI_SUCCESS"
proof -
  define a where "a = \<lparr>au_initialized = True, current_state = 0, state_count = 6,
        states = initialize_default_states, transition_table = build_transition_table,
        pattern_buffer = [], canonical_hash = (0 :: 32 word)\<rparr>"
  define b where "b = \<lparr>data = ''{}'', max_size = 8192, security_level = 0, normalized = True,
        validated = False, cost_value = 0 :: real, governance_zone = OBI_ZONE_AUTONOMOUS,
        pattern_hash = replicate 32 (0 :: 8 word)\<rparr>"
  have c: "obi_automaton_create True = (OBI_SUCCESS, Some a)"
    by (simp add: obi_automaton_create_def a_def)
  have d: "data b = CHR ''{'' # replicate 0 CHR '' '' @ ''}''" by (simp add: b_def)
  from automaton_accepts_empty_object[OF c d]
  have "fst (obi_automaton_process a b) = OBI_SUCCESS" by auto
  with c show ?thesis by (simp only: a_def b_def)
qed

section \<open>Rounding to double\<close>

lemma round_ties_even_bounds:
  "\<lfloor>t\<rfloor> \<le> round_ties_even t" "round_ties_even t \<le> \<lfloor>t\<rfloor> + 1"
  by (simp_all add: round_ties_even_def Let_def)

lemma round_ties_even_of_int [simp]: "round_ties_even (of_int k) = k"
  by (simp add: round_ties_even_def)

lemma round_ties_even_numeral [simp]: "round_ties_even (numeral n) = numeral n"
  using round_ties_even_of_int[of "numeral n"] by simp

lemma round_ties_even_ge: "of_int k \<le> t \<Longrightarrow> k \<le> round_ties_even t"
  using round_ties_even_bounds(1)[of t] by (simp add: le_floor_iff order_trans[rotated])

lemma round_ties_even_le: "t \<le> of_int k \<Longrightarrow> round_ties_even t \<le> k"
proof (cases "t = of_int k")
  case True
  then show ?thesis by simp
next
  case False
  assume "t \<le> of_int k"
  with False have "t < of_int k" by simp
  then have "\<lfloor>t\<rfloor> < k" by (simp add: floor_less_iff)
  then show ?thesis using round_ties_even_bounds(2)[of t] by linarith
qed

lemma round_ties_even_odd_iff:
  assumes "odd k"
  shows "k + 1 \<le> round_ties_even t \<longleftrightarrow> of_int k + 1 / 2 \<le> t"
proof
  assume a: "k + 1 \<le> round_ties_even t"
  show "of_int k + 1 / 2 \<le> t"
  proof (rule ccontr)
    assume "\<not> of_int k + 1 / 2 \<le> t"
    then have lt: "t < of_int k + 1 / 2" by simp
    then have "t < of_int (k + 1)" by simp
    then have "\<lfloor>t\<rfloor> < k + 1" by (subst floor_less_iff) simp
    then have f: "\<lfloor>t\<rfloor> \<le> k" by simp
    show False
    proof (cases "\<lfloor>t\<rfloor> = k")
      case True
      then have "t - of_int \<lfloor>t\<rfloor> < 1 / 2" using lt by simp
      then have "round_ties_even t = k" using True by (simp add: round_ties_even_def Let_def)
      with a show False by simp
    next
      case False
      with f have "\<lfloor>t\<rfloor> + 1 \<le> k" by simp
      with round_ties_even_bounds(2)[of t] a show False by linarith
    qed
  qed
next
  assume a: "of_int k + 1 / 2 \<le> t"
  then have "of_int k \<le> t" by linarith
  then have f: "k \<le> \<lfloor>t\<rfloor>" by (simp add: le_floor_iff)
  show "k + 1 \<le> round_ties_even t"
  proof (cases "\<lfloor>t\<rfloor> = k")
    case True
    then have "\<not> t - of_int \<lfloor>t\<rfloor> < 1 / 2" using a by simp
    then show ?thesis using True assms by (simp add: round_ties_even_def Let_def)
  next
    case False
    with f have "k + 1 \<le> \<lfloor>t\<rfloor>" by simp
    with round_ties_even_bounds(1)[of t] show ?thesis by linarith
  qed
qed

lemma round_ties_even_even_iff:
  assumes "even k"
  shows "k + 1 \<le> round_ties_even t \<longleftrightarrow> of_int k + 1 / 2 < t"
proof
  assume a: "k + 1 \<le> round_ties_even t"
  show "of_int k + 1 / 2 < t"
  proof (rule ccontr)
    assume "\<not> of_int k + 1 / 2 < t"
    then have lt: "t \<le> of_int k + 1 / 2" by simp
    then have "t < of_int (k + 1)" by simp
    then have "\<lfloor>t\<rfloor> < k + 1" by (subst floor_less_iff) simp
    then have f: "\<lfloor>t\<rfloor> \<le> k" by simp
    show False
    proof (cases "\<lfloor>t\<rfloor> = k")
      case True
      then have "\<not> t - of_int \<lfloor>t\<rfloor> > 1 / 2" using lt by simp
      then have "round_ties_even t = k" using True assms by (simp add: round_ties_even_def Let_def)
      with a show False by simp
    next
      case False
      with f have "\<lfloor>t\<rfloor> + 1 \<le> k" by simp
      with round_ties_even_bounds(2)[of t] a show False by linarith
    qed
  qed
next
  assume a: "of_int k + 1 / 2 < t"
  then have "of_int k \<le> t" by linarith
  then have f: "k \<le> \<lfloor>t\<rfloor>" by (simp add: le_floor_iff)
  show "k + 1 \<le> round_ties_even t"
  proof (cases "\<lfloor>t\<rfloor> = k")
    case True
    then have "t - of_int \<lfloor>t\<rfloor> > 1 / 2" using a by simp
    then show ?thesis using True by (simp add: round_ties_even_def Let_def)
  next
    case False
    with f have "k + 1 \<le> \<lfloor>t\<rfloor>" by simp
    with round_ties_even_bounds(1)[of t] show ?thesis by linarith
  qed
qed

text \<open>The binade of a value.\<close>

lemma double_exponent_eq:
  assumes "2 powr of_int e \<le> \<bar>x\<bar>" and "\<bar>x\<bar> < 2 powr (of_int e + 1)" and "- 1022 \<le> e"
  shows "double_exponent x = e"
proof -
  have p: "0 < \<bar>x\<bar>" using assms(1) powr_gt_zero[of 2 "of_int e"] by linarith
  have "of_int e \<le> log 2 \<bar>x\<bar>" using assms(1) p by (simp add: le_log_iff)
  moreover have "log 2 \<bar>x\<bar> < of_int e + 1" using assms(2) p by (simp add: log_less_iff)
  ultimately have "\<lfloor>log 2 \<bar>x\<bar>\<rfloor> = e" by (simp add: floor_eq_iff)
  then show ?thesis using assms(3) by (simp add: double_exponent_def)
qed


lemma double_spacing_pos [simp]: "0 < double_spacing x"
  by (simp add: double_spacing_def)

lemma spacing_times:
  "4503599627370496 * (2::real) powr (of_int e - 52) = 2 powr of_int e"
  "9007199254740992 * (2::real) powr (of_int e - 52) = 2 powr (of_int e + 1)"
  using powr_add[of "2::real" 52 "of_int e - 52"] powr_add[of "2::real" 53 "of_int e - 52"]
  by (simp_all add: add.commute)

text \<open>A value inside a binade that does not reach the overflow threshold is rounded to a
  multiple of the spacing of that binade.\<close>

lemma round_double_binade:
  assumes "2 powr of_int e \<le> \<bar>x\<bar>" and "\<bar>x\<bar> < 2 powr (of_int e + 1)" and "- 1022 \<le> e"
    and "e \<le> 0"
  shows "round_double x =
           Finite (of_int (round_ties_even (x / 2 powr (of_int e - 52))) * 2 powr (of_int e - 52))"
proof -
  define u :: real where "u = 2 powr (of_int e - 52)"
  define n where "n = round_ties_even (x / u)"
  have u: "0 < u" by (simp add: u_def)
  have sp: "double_spacing x = u"
    by (simp add: double_spacing_def double_exponent_eq[OF assms(1,2,3)] u_def)
  have x0: "x \<noteq> 0" using assms(1) powr_gt_zero[of 2 "of_int e"] by auto
  have "\<bar>x\<bar> \<le> 2 ^ 53 * u" using assms(2) by (simp add: u_def spacing_times)
  then have "x \<le> 2 ^ 53 * u" "- (2 ^ 53) * u \<le> x" by linarith+
  then have t: "x / u \<le> of_int (2 ^ 53)" "of_int (- (2 ^ 53)) \<le> x / u"
    using u by (simp_all add: pos_divide_le_eq pos_le_divide_eq)
  have "n \<le> 2 ^ 53" "- (2 ^ 53) \<le> n"
    unfolding n_def using round_ties_even_le[OF t(1)] round_ties_even_ge[OF t(2)] by simp_all
  then have "real_of_int n \<le> 2 ^ 53" "- real_of_int n \<le> 2 ^ 53" by simp_all
  then have "\<bar>real_of_int n\<bar> \<le> 2 ^ 53" by (simp only: abs_le_iff)
  then have "\<bar>real_of_int n * u\<bar> \<le> 2 ^ 53 * u"
    using u by (simp add: abs_mult)
  also have "\<dots> = 2 powr (of_int e + 1)" by (simp add: u_def spacing_times)
  also have "\<dots> \<le> 2 powr 1" using assms(4) by (intro powr_mono) simp_all
  also have "\<dots> < 2 ^ 1024" by simp
  finally have "\<not> 2 ^ 1024 \<le> \<bar>real_of_int n * u\<bar>" by simp
  then show ?thesis
    using x0 by (simp add: round_double_def sp Let_def flip: n_def u_def)
qed

lemma round_double_unit_binade:
  assumes "1 \<le> x" and "x < 2"
  shows "round_double x = Finite (of_int (round_ties_even (x * 2 ^ 52)) / 2 ^ 52)"
proof -
  have s: "(2::real) powr (of_int 0 - 52) = 1 / 2 ^ 52"
    by (simp add: powr_neg_numeral)
  have "round_double x =
          Finite (of_int (round_ties_even (x / 2 powr (of_int 0 - 52))) * 2 powr (of_int 0 - 52))"
    using assms by (intro round_double_binade) simp_all
  then show ?thesis unfolding s by simp
qed

text \<open>Values of 2 and above are rounded to at least 2, values below 1 to at most 1.\<close>

lemma round_double_ge_2:
  assumes "2 \<le> x" and "c < 2"
  shows "double_less (Finite c) (round_double x)"
proof -
  define e where "e = double_exponent x"
  define u :: real where "u = 2 powr (of_int e - 52)"
  define y where "y = of_int (round_ties_even (x / u)) * u"
  have u: "0 < u" by (simp add: u_def)
  have "1 \<le> log 2 x" using assms(1) by (simp add: le_log_iff)
  then have f: "1 \<le> \<lfloor>log 2 x\<rfloor>" by (simp add: le_floor_iff)
  moreover have "\<bar>x\<bar> = x" using assms(1) by simp
  ultimately have e: "e = \<lfloor>log 2 x\<rfloor>" by (simp add: e_def double_exponent_def)
  then have "of_int e \<le> log 2 x" by simp
  then have ex: "2 powr of_int e \<le> x" using assms(1) by (simp add: le_log_iff)
  then have "2 ^ 52 * u \<le> x" by (simp add: u_def spacing_times)
  then have "of_int (2 ^ 52) \<le> x / u" using u by (simp add: pos_le_divide_eq)
  then have "2 ^ 52 \<le> round_ties_even (x / u)" by (rule round_ties_even_ge)
  then have "(2 ^ 52 :: real) \<le> of_int (round_ties_even (x / u))" by simp
  then have "2 ^ 52 * u \<le> y" unfolding y_def using u by simp
  then have "2 powr of_int e \<le> y" by (simp add: u_def spacing_times)
  moreover have "(2::real) powr 1 \<le> 2 powr of_int e" using f e by (intro powr_mono) simp_all
  ultimately have y: "2 \<le> y" by simp
  have "round_double x = (if 2 ^ 1024 \<le> \<bar>y\<bar> then PosInf else Finite y)"
    using assms(1) y by (simp add: round_double_def double_spacing_def Let_def
        flip: e_def u_def y_def)
  then show ?thesis using y assms(2) by simp
qed

lemma round_double_less_1:
  assumes "x < 1" and "1 \<le> c"
  shows "\<not> double_less (Finite c) (round_double x)"
proof -
  define e where "e = double_exponent x"
  define u :: real where "u = 2 powr (of_int e - 52)"
  define y where "y = of_int (round_ties_even (x / u)) * u"
  have u: "0 < u" by (simp add: u_def)
  have r: "round_double x =
     (if x = 0 then Finite 0
      else if 2 ^ 1024 \<le> \<bar>y\<bar> then (if 0 < y then PosInf else NegInf) else Finite y)"
    by (simp add: round_double_def double_spacing_def Let_def flip: e_def u_def y_def)
  consider "x = 0" | "x < 0" | "0 < x" by linarith
  then show ?thesis
  proof cases
    case 1
    then show ?thesis using assms(2) by (simp add: round_double_def)
  next
    case 2
    then have "x / u \<le> of_int 0" using u by (simp add: divide_le_0_iff)
    then have "round_ties_even (x / u) \<le> 0" by (rule round_ties_even_le)
    then have "y \<le> 0" unfolding y_def using u by (simp add: mult_le_0_iff)
    then show ?thesis using assms(2) 2 by (simp add: r)
  next
    case 3
    have "log 2 x < 0" using 3 assms(1) by simp
    then have f: "\<lfloor>log 2 x\<rfloor> \<le> - 1" by (simp add: floor_le_iff)
    moreover have "\<bar>x\<bar> = x" using 3 by simp
    ultimately have e: "e \<le> - 1" "\<lfloor>log 2 x\<rfloor> \<le> e" by (simp_all add: e_def double_exponent_def)
    have "log 2 x < of_int \<lfloor>log 2 x\<rfloor> + 1" by linarith
    also have "\<dots> \<le> of_int e + 1" using e(2) by simp
    finally have "x < 2 powr (of_int e + 1)" using 3 by (simp add: log_less_iff)
    then have "x \<le> 2 ^ 53 * u" by (simp add: u_def spacing_times)
    then have "x / u \<le> of_int (2 ^ 53)" using u by (simp add: pos_divide_le_eq)
    then have "round_ties_even (x / u) \<le> 2 ^ 53" by (rule round_ties_even_le)
    then have "real_of_int (round_ties_even (x / u)) \<le> 2 ^ 53" by simp
    then have "y \<le> 2 ^ 53 * u" unfolding y_def using u by simp
    also have "\<dots> = 2 powr (of_int e + 1)" by (simp add: u_def spacing_times)
    also have "\<dots> \<le> 2 powr 0" using e(1) by (intro powr_mono) simp_all
    finally have y1: "y \<le> 1" by simp
    have "of_int 0 \<le> x / u" using 3 u by simp
    then have "0 \<le> round_ties_even (x / u)" by (rule round_ties_even_ge)
    then have y0: "0 \<le> y" unfolding y_def using u by simp
    have "\<not> 2 ^ 1024 \<le> \<bar>y\<bar>" using y0 y1 by (simp add: abs_if)
    then show ?thesis using y1 assms(2) by (simp add: r)
  qed
qed


text \<open>The doubles of the literals and parameter values used below.\<close>

lemma round_double_0 [simp]: "round_double 0 = Finite 0"
  by (simp add: round_double_def)

lemma round_double_1 [simp]: "round_double 1 = Finite 1"
  by (simp add: round_double_unit_binade)

lemma round_double_1_0001: "round_double 1.0001 = Finite (4504049987333233 / 2 ^ 52)"
  by (simp add: round_double_unit_binade round_ties_even_def)

lemma round_double_half: "round_double 0.5 = Finite (1 / 2)"
  using round_double_binade[of "- 1" "0.5"] by (simp add: powr_neg_numeral powr_minus)

lemma round_double_0_8: "round_double 0.8 = Finite (3602879701896397 / 2 ^ 52)"
  using round_double_binade[of "- 1" "0.8"]
  by (simp add: powr_neg_numeral powr_minus round_ties_even_def)

lemma round_double_2_54: "round_double (1 / 2 ^ 54) = Finite (1 / 2 ^ 54)"
  using round_double_binade[of "- 54" "1 / 2 ^ 54"]
  by (simp add: powr_neg_numeral)

text \<open>
  The test \<open>x > 1.0001\<close> on a rounded value, in terms of the exact value: the double of the
  literal is \<open>4504049987333233 / 2\<^sup>5\<^sup>2\<close>, with an odd significand, so the midpoint to the
  next double is rounded up.
\<close>

lemma greater_1_0001_iff:
  "double_greater (round_double x) (round_double 1.0001) \<longleftrightarrow> 9008099974666467 / 2 ^ 53 \<le> x"
proof -
  consider "x < 1" | "1 \<le> x" "x < 2" | "2 \<le> x" by linarith
  then show ?thesis
  proof cases
    case 1
    have "\<not> double_less (Finite (4504049987333233 / 2 ^ 52)) (round_double x)"
      by (rule round_double_less_1[OF 1]) simp
    then show ?thesis unfolding double_greater_def round_double_1_0001 using 1 by simp
  next
    case 2
    have "4504049987333233 + 1 \<le> round_ties_even (x * 2 ^ 52) \<longleftrightarrow>
          of_int 4504049987333233 + 1 / 2 \<le> x * 2 ^ 52"
      by (rule round_ties_even_odd_iff) simp
    then have "4504049987333233 < real_of_int (round_ties_even (x * 2 ^ 52)) \<longleftrightarrow>
          9008099974666467 / 2 ^ 53 \<le> x"
      by (simp add: field_simps) linarith
    then show ?thesis
      unfolding double_greater_def round_double_1_0001
      using 2 by (simp add: round_double_unit_binade field_simps)
  next
    case 3
    have "double_less (Finite (4504049987333233 / 2 ^ 52)) (round_double x)"
      by (rule round_double_ge_2[OF 3]) simp
    then show ?thesis unfolding double_greater_def round_double_1_0001 using 3 by simp
  qed
qed

section \<open>Cost evaluator and validator construction\<close>

lemma fold_unchanged: "(\<And>x. x \<in> set xs \<Longrightarrow> f x a = a) \<Longrightarrow> fold f xs a = a"
  by (induction xs) simp_all

lemma fold_pair_same:
  "\<exists>e. fold (\<lambda>i (ei, ej). (F i ei, F i ej)) xs (a, a) = (e, e)"
  by (induction xs arbitrary: a) simp_all

lemma fold_pair_snd:
  "snd (fold (\<lambda>i (p, q). (F i p, G i q)) xs (p0, q0)) = fold G xs q0"
  by (induction xs arbitrary: p0 q0) simp_all

lemma fold_update_length: "length (fold (\<lambda>i q. q[i := c]) xs q0) = length q0"
  by (induction xs arbitrary: q0) simp_all

lemma fold_update_nth:
  "i < n \<Longrightarrow> n \<le> length q0 \<Longrightarrow> fold (\<lambda>i q. q[i := c]) [0..<n] q0 ! i = c"
proof (induction n)
  case 0
  then show ?case by simp
next
  case (Suc n)
  show ?case
  proof (cases "i = n")
    case True
    then show ?thesis using Suc.prems by (simp add: fold_update_length)
  next
    case False
    then show ?thesis using Suc by simp
  qed
qed

lemma derive_distributions_uniform:
  assumes "derive_distributions b = (P, Q, n)"
  shows "n = min (length (data b)) 16" and "i < n \<Longrightarrow> Q ! i = 1 / real n"
proof -
  define n0 where "n0 = (if length (data b) < 16 then length (data b) else 16)"
  define p0 where "p0 = fold (\<lambda>i p_i. p_i[i := real (of_char (data b ! i) + 1) / 256])
                 [0..<n0] (replicate 16 0)"
  define s where "s = fold (\<lambda>i sum. sum + p0 ! i) [0..<n0] 0"
  have d: "derive_distributions b =
     (case fold (\<lambda>i (p_i, p_j). (p_i[i := p_i ! i / s], p_j[i := 1 / real n0]))
             [0..<n0] (p0, replicate 16 0) of (p_i, p_j) \<Rightarrow> (p_i, p_j, n0))"
    by (simp add: derive_distributions_def Let_def n0_def p0_def s_def)
  from d assms have n: "n = n0" by (simp split: prod.splits)
  then show "n = min (length (data b)) 16" by (simp add: n0_def min_def)
  from d assms have "Q = snd (fold (\<lambda>i (p_i, p_j). (p_i[i := p_i ! i / s], p_j[i := 1 / real n0]))
             [0..<n0] (p0, replicate 16 0))"
    by (simp split: prod.splits)
  then have Q: "Q = fold (\<lambda>i p_j. p_j[i := 1 / real n0]) [0..<n0] (replicate 16 0)"
    by (simp only: fold_pair_snd[of "\<lambda>i p_i. p_i[i := p_i ! i / s]" "\<lambda>i p_j. p_j[i := 1 / real n0]"])
  assume "i < n"
  then show "Q ! i = 1 / real n"
    unfolding Q n by (rule fold_update_nth) (simp add: n0_def)
qed

lemma kl_divergence_same:
  assumes "0 < n" and "\<And>i. i < n \<Longrightarrow> OBI_EPSILON_MIN \<le> Q ! i"
  shows "obi_kl_divergence Q Q n = 0"
proof -
  have e: "0 < OBI_EPSILON_MIN" by (simp add: OBI_EPSILON_MIN_def)
  have "fold (\<lambda>i kl_div.
                   if Q ! i \<le> 0 then kl_div
                   else let q_safe = (if Q ! i < OBI_EPSILON_MIN then OBI_EPSILON_MIN else Q ! i)
                        in kl_div + Q ! i * log 2 (Q ! i / q_safe))
             [0..<n] 0 = 0"
  proof (rule fold_unchanged)
    fix i assume "i \<in> set [0..<n]"
    then have "OBI_EPSILON_MIN \<le> Q ! i" using assms(2) by simp
    with e show "(if Q ! i \<le> 0 then 0
               else let q_safe = (if Q ! i < OBI_EPSILON_MIN then OBI_EPSILON_MIN else Q ! i)
                    in 0 + Q ! i * log 2 (Q ! i / q_safe)) = (0::real)"
      by (simp add: Let_def)
  qed
  with assms(1) show ?thesis by (simp add: obi_kl_divergence_def)
qed

lemma traversal_cost_same:
  assumes "0 < n" and "\<And>i. i < n \<Longrightarrow> OBI_EPSILON_MIN \<le> Q ! i"
    and "0 \<le> a" "0 \<le> b" "a + b \<le> 1.0001"
  shows "obi_calculate_traversal_cost Q Q n a b = 0"
proof -
  obtain e where e: "fold (\<lambda>i (entropy_i, entropy_j).
                           (if Q ! i > 0 then entropy_i - Q ! i * log 2 (Q ! i) else entropy_i,
                            if Q ! i > 0 then entropy_j - Q ! i * log 2 (Q ! i) else entropy_j))
                     [0..<n] (0, 0) = (e, e)"
    using fold_pair_same[of "\<lambda>i e. if Q ! i > 0 then e - Q ! i * log 2 (Q ! i) else e" "[0..<n]" 0]
    by blast
  show ?thesis
    using assms(1,3,4,5)
    by (simp add: obi_calculate_traversal_cost_def kl_divergence_same[OF assms(1,2)] e
        obi_entropy_change_def)
qed

text \<open>
  Claim C8.  When the distribution \<open>P\<close> derived from a non-empty payload equals the
  uniform comparison distribution \<open>Q\<close>, and the parameters are valid, the computed cost is
  exactly 0, the zone of cost 0 is \<open>AUTONOMOUS\<close>, and the check of the mathematical
  properties succeeds with \<open>cost_value = 0\<close> and that zone stored on the buffer.
\<close>

theorem cost_identity_uniform:
  assumes "derive_distributions b = (P, Q, n)" and "P = Q" and "data b \<noteq> []"
    and "0 \<le> alpha (v_context v)" and "0 \<le> beta (v_context v)"
    and "alpha (v_context v) + beta (v_context v) \<le> 1.0001"
  shows "obi_calculate_traversal_cost P Q n (alpha (v_context v)) (beta (v_context v)) = 0 \<and>
         obi_assess_governance_zone 0 = OBI_ZONE_AUTONOMOUS \<and>
         validate_mathematical_properties v b =
           (OBI_SUCCESS, b\<lparr>cost_value := 0, governance_zone := OBI_ZONE_AUTONOMOUS\<rparr>)"
proof -
  note dd = derive_distributions_uniform[OF assms(1)]
  have n: "0 < n" "n \<le> 16" using dd(1) assms(3) by simp_all
  have q: "OBI_EPSILON_MIN \<le> Q ! i" if "i < n" for i
  proof -
    have "(1::real) / 16 \<le> 1 / real n" using n by (simp add: frac_le)
    moreover have "OBI_EPSILON_MIN \<le> 1 / 16" by (simp add: OBI_EPSILON_MIN_def)
    ultimately show ?thesis using dd(2)[OF that] by simp
  qed
  have c: "obi_calculate_traversal_cost P Q n (alpha (v_context v)) (beta (v_context v)) = 0"
    unfolding assms(2) by (rule traversal_cost_same[OF n(1) q assms(4,5,6)])
  have z: "obi_assess_governance_zone 0 = OBI_ZONE_AUTONOMOUS"
    by (simp add: obi_assess_governance_zone_def OBI_COST_THRESHOLD_def)
  show ?thesis
    using c z by (simp add: validate_mathematical_properties_def assms(1) Let_def)
qed

text \<open>Witness for C8: the payload \<open>aa\<close> with \<open>alpha = beta = 0.5\<close>.\<close>

theorem cost_identity_uniform_witness:
  "derive_distributions
     \<lparr>data = ''aa'', max_size = 8192, security_level = 0, normalized = True,
      validated = False, cost_value = 7, governance_zone = OBI_ZONE_GOVERNANCE,
      pattern_hash = replicate 32 0\<rparr> =
     ([1 / 2, 1 / 2, 0, 0, 0, 0, 0, 0, 0, 0, 0, 0, 0, 0, 0, 0],
      [1 / 2, 1 / 2, 0, 0, 0, 0, 0, 0, 0, 0, 0, 0, 0, 0, 0, 0], 2) \<and>
   validate_mathematical_properties
     \<lparr>v_context = \<lparr>zero_trust_enforced = True, canonical_only = True, alpha = 0.5,
                   beta = 0.5, epsilon_min = OBI_EPSILON_MIN\<rparr>,
      v_initialized = True, validation_count = 0\<rparr>
     \<lparr>data = ''aa'', max_size = 8192, security_level = 0, normalized = True,
      validated = False, cost_value = 7, governance_zone = OBI_ZONE_GOVERNANCE,
      pattern_hash = replicate 32 0\<rparr> =
     (OBI_SUCCESS,
      \<lparr>data = ''aa'', max_size = 8192, security_level = 0, normalized = True,
       validated = False, cost_value = 0, governance_zone = OBI_ZONE_AUTONOMOUS,
       pattern_hash = replicate 32 0\<rparr>)"
proof -
  define b where "b = \<lparr>data = ''aa'', max_size = 8192, security_level = 0, normalized = True,
      validated = False, cost_value = 7 :: real, governance_zone = OBI_ZONE_GOVERNANCE,
      pattern_hash = replicate 32 (0 :: 8 word)\<rparr>"
  define v where "v = \<lparr>v_context = \<lparr>zero_trust_enforced = True, canonical_only = True,
      alpha = 0.5, beta = 0.5, epsilon_min = OBI_EPSILON_MIN\<rparr>,
      v_initialized = True, validation_count = 0\<rparr>"
  have d: "derive_distributions b =
     ([1 / 2, 1 / 2, 0, 0, 0, 0, 0, 0, 0, 0, 0, 0, 0, 0, 0, 0],
      [1 / 2, 1 / 2, 0, 0, 0, 0, 0, 0, 0, 0, 0, 0, 0, 0, 0, 0], 2)"
    by (simp add: derive_distributions_def b_def Let_def eval_nat_numeral)
  have "validate_mathematical_properties v b =
          (OBI_SUCCESS, b\<lparr>cost_value := 0, governance_zone := OBI_ZONE_AUTONOMOUS\<rparr>)"
    using cost_identity_uniform[OF d refl, of v] by (simp add: b_def v_def)
  with d show ?thesis by (simp add: b_def v_def)
qed

text \<open>An infinite parameter is refused, unless the other parameter is a NaN.\<close>

lemma validator_create_refuses_infinite:
  assumes "alpha ctx \<in> {PosInf, NegInf} \<or> beta ctx \<in> {PosInf, NegInf}"
    and "alpha ctx \<noteq> NaN" and "beta ctx \<noteq> NaN"
  shows "obi_validator_create True ctx = (OBI_ERROR_NUMERICAL_INSTABILITY, None)"
proof -
  have "double_less (alpha ctx) (Finite 0) \<or> double_less (beta ctx) (Finite 0) \<or>
        double_less (Finite (4504049987333233 / 2 ^ 52)) (double_add (alpha ctx) (beta ctx))"
    using assms by (cases "alpha ctx"; cases "beta ctx") simp_all
  then show ?thesis
    unfolding obi_validator_create_def double_greater_def round_double_1_0001 by auto
qed

text \<open>
  Claim C9 fails on the code as stated.  The test of the parameters is made on doubles: the
  sum \<open>alpha + beta\<close> is rounded before it is compared, and the bound is the double of
  the literal \<open>1.0001\<close>, which lies below \<open>1 + 10\<^sup>-\<^sup>4\<close>.  For \<open>alpha\<close> the double of
  \<open>1.0001\<close> and \<open>beta = 2\<^sup>-\<^sup>5\<^sup>4\<close> (a double as well) the exact sum exceeds
  \<open>1 + 10\<^sup>-\<^sup>4\<close>, the rounded sum is \<open>alpha\<close> again, and the validator is constructed.  A NaN
  passes all three comparisons, so with \<open>alpha\<close> a NaN the validator is constructed too.
\<close>

theorem validator_create_accepts_rounded_sum_and_nan:
  "round_double 1.0001 = Finite (4504049987333233 / 2 ^ 52) \<and>
   round_double (1 / 2 ^ 54) = Finite (1 / 2 ^ 54) \<and>
   (1 + 1 / 10 ^ 4 :: real) < 4504049987333233 / 2 ^ 52 + 1 / 2 ^ 54 \<and>
   obi_validator_create True
      \<lparr>zero_trust_enforced = True, canonical_only = True,
       alpha = Finite (4504049987333233 / 2 ^ 52), beta = Finite (1 / 2 ^ 54),
       epsilon_min = round_double OBI_EPSILON_MIN\<rparr> =
     (OBI_SUCCESS,
      Some \<lparr>v_context = \<lparr>zero_trust_enforced = True, canonical_only = True,
                          alpha = Finite (4504049987333233 / 2 ^ 52),
                          beta = Finite (1 / 2 ^ 54),
                          epsilon_min = round_double OBI_EPSILON_MIN\<rparr>,
            v_initialized = True, validation_count = 0\<rparr>) \<and>
   obi_validator_create True
      \<lparr>zero_trust_enforced = True, canonical_only = True,
       alpha = NaN, beta = Finite (1 / 2),
       epsilon_min = round_double OBI_EPSILON_MIN\<rparr> =
     (OBI_SUCCESS,
      Some \<lparr>v_context = \<lparr>zero_trust_enforced = True, canonical_only = True,
                          alpha = NaN, beta = Finite (1 / 2),
                          epsilon_min = round_double OBI_EPSILON_MIN\<rparr>,
            v_initialized = True, validation_count = 0\<rparr>)"
proof -
  have a: "\<not> double_greater
              (double_add (Finite (4504049987333233 / 2 ^ 52)) (Finite (1 / 2 ^ 54)))
              (round_double 1.0001)"
    unfolding double_add.simps greater_1_0001_iff by simp
  have b: "obi_validator_create True
      \<lparr>zero_trust_enforced = True, canonical_only = True,
       alpha = Finite (4504049987333233 / 2 ^ 52), beta = Finite (1 / 2 ^ 54),
       epsilon_min = round_double OBI_EPSILON_MIN\<rparr> =
     (OBI_SUCCESS,
      Some \<lparr>v_context = \<lparr>zero_trust_enforced = True, canonical_only = True,
                          alpha = Finite (4504049987333233 / 2 ^ 52),
                          beta = Finite (1 / 2 ^ 54),
                          epsilon_min = round_double OBI_EPSILON_MIN\<rparr>,
            v_initialized = True, validation_count = 0\<rparr>)"
    using a by (simp add: obi_validator_create_def)
  have c: "obi_validator_create True
      \<lparr>zero_trust_enforced = True, canonical_only = True,
       alpha = NaN, beta = Finite (1 / 2),
       epsilon_min = round_double OBI_EPSILON_MIN\<rparr> =
     (OBI_SUCCESS,
      Some \<lparr>v_context = \<lparr>zero_trust_enforced = True, canonical_only = True,
                          alpha = NaN, beta = Finite (1 / 2),
                          epsilon_min = round_double OBI_EPSILON_MIN\<rparr>,
            v_initialized = True, validation_count = 0\<rparr>)"
    using round_double_1_0001 by (simp add: obi_validator_create_def double_greater_def)
  have d: "(1 + 1 / 10 ^ 4 :: real) < 4504049987333233 / 2 ^ 52 + 1 / 2 ^ 54" by simp
  show ?thesis
    using round_double_1_0001 round_double_2_54 d b c by (intro conjI)
qed

text \<open>
  Claim C9, amended.  When the allocation succeeds and the parameters are finite doubles,
  \<open>obi_validator_create\<close> returns \<open>NUMERICAL_INSTABILITY\<close> exactly when \<open>alpha < 0\<close>,
  \<open>beta < 0\<close> or the rounded sum exceeds the double of \<open>1.0001\<close>, that is, when the exact
  sum \<open>alpha + beta\<close> is at least \<open>9008099974666467 / 2\<^sup>5\<^sup>3\<close>, a bound between
  \<open>1 + 10\<^sup>-\<^sup>4\<close> and \<open>1 + 10\<^sup>-\<^sup>4 + 10\<^sup>-\<^sup>1\<^sup>5\<close>; it then leaves no validator.  With the doubles of
  \<open>0.8\<close> and \<open>0.5\<close> it returns \<open>NUMERICAL_INSTABILITY\<close> and no validator, whatever the other
  fields of the context are.
\<close>

theorem validator_create_numerical_instability_finite:
  assumes "alpha ctx = Finite a" and "beta ctx = Finite b"
  shows "(fst (obi_validator_create True ctx) = OBI_ERROR_NUMERICAL_INSTABILITY \<longleftrightarrow>
            a < 0 \<or> b < 0 \<or> 9008099974666467 / 2 ^ 53 \<le> a + b) \<and>
         (fst (obi_validator_create True ctx) = OBI_ERROR_NUMERICAL_INSTABILITY \<longrightarrow>
            snd (obi_validator_create True ctx) = None) \<and>
         (1 + 1 / 10 ^ 4 :: real) < 9008099974666467 / 2 ^ 53 \<and>
         (9008099974666467 / 2 ^ 53 :: real) < 1 + 1 / 10 ^ 4 + 1 / 10 ^ 15 \<and>
         obi_validator_create True (ctx\<lparr>alpha := round_double 0.8, beta := round_double 0.5\<rparr>) =
           (OBI_ERROR_NUMERICAL_INSTABILITY, None)"
proof -
  have g: "double_greater (double_add (Finite x) (Finite y)) (round_double 1.0001) \<longleftrightarrow>
           9008099974666467 / 2 ^ 53 \<le> x + y" for x y
    unfolding double_add.simps by (rule greater_1_0001_iff)
  have t: "double_less (alpha ctx) (round_double 0) \<or> double_less (beta ctx) (round_double 0) \<or>
           double_greater (double_add (alpha ctx) (beta ctx)) (round_double 1.0001) \<longleftrightarrow>
           a < 0 \<or> b < 0 \<or> 9008099974666467 / 2 ^ 53 \<le> a + b"
    unfolding assms g by simp
  have 1: "fst (obi_validator_create True ctx) = OBI_ERROR_NUMERICAL_INSTABILITY \<longleftrightarrow>
            a < 0 \<or> b < 0 \<or> 9008099974666467 / 2 ^ 53 \<le> a + b"
    unfolding t[symmetric] by (simp add: obi_validator_create_def)
  have 2: "fst (obi_validator_create True ctx) = OBI_ERROR_NUMERICAL_INSTABILITY \<longrightarrow>
            snd (obi_validator_create True ctx) = None"
    by (simp add: obi_validator_create_def)
  have 3: "(1 + 1 / 10 ^ 4 :: real) < 9008099974666467 / 2 ^ 53" by simp
  have 4: "(9008099974666467 / 2 ^ 53 :: real) < 1 + 1 / 10 ^ 4 + 1 / 10 ^ 15" by simp
  have "double_greater
          (double_add (Finite (3602879701896397 / 2 ^ 52)) (Finite (1 / 2)))
          (round_double 1.0001)"
    unfolding g by simp
  then have 5: "obi_validator_create True
                  (ctx\<lparr>alpha := round_double 0.8, beta := round_double 0.5\<rparr>) =
                (OBI_ERROR_NUMERICAL_INSTABILITY, None)"
    unfolding round_double_0_8 round_double_half by (simp add: obi_validator_create_def)
  show ?thesis using 1 2 3 4 5 by (intro conjI)
qed

text \<open>Witness for C9: the doubles \<open>0.25\<close> and \<open>0.75\<close> are not refused with
  \<open>NUMERICAL_INSTABILITY\<close>, the doubles of \<open>0.8\<close> and \<open>0.5\<close> are.\<close>

theorem validator_create_numerical_instability_finite_witness:
  "fst (obi_validator_create True
      \<lparr>zero_trust_enforced = True, canonical_only = True, alpha = Finite (1 / 4),
       beta = Finite (3 / 4), epsilon_min = round_double OBI_EPSILON_MIN\<rparr>) \<noteq>
     OBI_ERROR_NUMERICAL_INSTABILITY \<and>
   obi_validator_create True
      \<lparr>zero_trust_enforced = True, canonical_only = True, alpha = round_double 0.8,
       beta = round_double 0.5, epsilon_min = round_double OBI_EPSILON_MIN\<rparr> =
     (OBI_ERROR_NUMERICAL_INSTABILITY, None)"
  using validator_create_numerical_instability_finite
    [of "\<lparr>zero_trust_enforced = True, canonical_only = True, alpha = Finite (1 / 4),
       beta = Finite (3 / 4), epsilon_min = round_double OBI_EPSILON_MIN\<rparr>" "1 / 4" "3 / 4"]
  by simp

lemma log2_3_less: "log 2 3 < (5 / 3 :: real)"
proof -
  have "log 2 (27::real) = log 2 (3 ^ 3)" by simp
  also have "\<dots> = 3 * log 2 3" by (subst log_nat_power) simp_all
  finally have a: "3 * log 2 3 = log 2 (27::real)" by simp
  have "log 2 (32::real) = log 2 (2 ^ 5)" by simp
  also have "\<dots> = 5" by (subst log_nat_power) simp_all
  finally have b: "log 2 (32::real) = 5" .
  have "log 2 (27::real) < log 2 32" by (subst log_less_cancel_iff) simp_all
  with a b show ?thesis by simp
qed

lemma log2_thirds:
  "log 2 (1 / 3 :: real) = - log 2 3"
  "log 2 (2 / 3 :: real) = 1 - log 2 3"
  "log 2 (4 / 3 :: real) = 2 - log 2 3"
  "log 2 (1 / 2 :: real) = - 1"
proof -
  show "log 2 (1 / 2 :: real) = - 1" by (simp add: log_divide)
  show "log 2 (1 / 3 :: real) = - log 2 3" by (simp add: log_divide)
  show "log 2 (2 / 3 :: real) = 1 - log 2 3" by (simp add: log_divide)
  have "log 2 (4::real) = log 2 (2 ^ 2)" by simp
  also have "\<dots> = 2" by (subst log_nat_power) simp_all
  finally show "log 2 (4 / 3 :: real) = 2 - log 2 3" by (simp add: log_divide)
qed

text \<open>
  Claim C4 fails on the code.  For the two-byte payload \<open>1c\<close> the derived distribution is
  \<open>P = (1/3, 2/3)\<close> against the uniform \<open>Q = (1/2, 1/2)\<close>.  With the valid parameters
  \<open>alpha = 0\<close>, \<open>beta = 1\<close> the validator is constructed (from the doubles \<open>0.0\<close> and
  \<open>1.0\<close>), and \<open>obi_calculate_traversal_cost\<close> returns \<open>log\<^sub>2 3 - 5/3\<close>, which is negative (about
  \<open>-0.08\<close>); \<open>validate_mathematical_properties\<close> then refuses the buffer with
  \<open>NUMERICAL_INSTABILITY\<close>.
\<close>

theorem traversal_cost_negative_for_valid_parameters:
  "obi_validator_create True
     \<lparr>zero_trust_enforced = True, canonical_only = True, alpha = Finite 0, beta = Finite 1,
      epsilon_min = round_double OBI_EPSILON_MIN\<rparr> =
     (OBI_SUCCESS,
      Some \<lparr>v_context = \<lparr>zero_trust_enforced = True, canonical_only = True,
                          alpha = Finite 0, beta = Finite 1,
                          epsilon_min = round_double OBI_EPSILON_MIN\<rparr>,
            v_initialized = True, validation_count = 0\<rparr>) \<and>
   derive_distributions
     \<lparr>data = ''1c'', max_size = 8192, security_level = 0, normalized = True,
      validated = False, cost_value = 0, governance_zone = OBI_ZONE_AUTONOMOUS,
      pattern_hash = replicate 32 0\<rparr> =
     ([1 / 3, 2 / 3, 0, 0, 0, 0, 0, 0, 0, 0, 0, 0, 0, 0, 0, 0],
      [1 / 2, 1 / 2, 0, 0, 0, 0, 0, 0, 0, 0, 0, 0, 0, 0, 0, 0], 2) \<and>
   obi_calculate_traversal_cost
      [1 / 3, 2 / 3, 0, 0, 0, 0, 0, 0, 0, 0, 0, 0, 0, 0, 0, 0]
      [1 / 2, 1 / 2, 0, 0, 0, 0, 0, 0, 0, 0, 0, 0, 0, 0, 0, 0] 2 0 1 = log 2 3 - 5 / 3 \<and>
   log 2 3 - 5 / 3 < (0 :: real) \<and>
   validate_mathematical_properties
     \<lparr>v_context = \<lparr>zero_trust_enforced = True, canonical_only = True, alpha = 0,
                   beta = 1, epsilon_min = OBI_EPSILON_MIN\<rparr>,
      v_initialized = True, validation_count = 0\<rparr>
     \<lparr>data = ''1c'', max_size = 8192, security_level = 0, normalized = True,
      validated = False, cost_value = 0, governance_zone = OBI_ZONE_AUTONOMOUS,
      pattern_hash = replicate 32 0\<rparr> =
     (OBI_ERROR_NUMERICAL_INSTABILITY,
      \<lparr>data = ''1c'', max_size = 8192, security_level = 0, normalized = True,
       validated = False, cost_value = 0, governance_zone = OBI_ZONE_AUTONOMOUS,
       pattern_hash = replicate 32 0\<rparr>)"
proof -
  define b where "b = \<lparr>data = ''1c'', max_size = 8192, security_level = 0, normalized = True,
      validated = False, cost_value = 0 :: real, governance_zone = OBI_ZONE_AUTONOMOUS,
      pattern_hash = replicate 32 (0 :: 8 word)\<rparr>"
  define P :: "real list" where "P = [1 / 3, 2 / 3, 0, 0, 0, 0, 0, 0, 0, 0, 0, 0, 0, 0, 0, 0]"
  define Q :: "real list" where "Q = [1 / 2, 1 / 2, 0, 0, 0, 0, 0, 0, 0, 0, 0, 0, 0, 0, 0, 0]"
  have d: "derive_distributions b = (P, Q, 2)"
    by (simp add: derive_distributions_def b_def P_def Q_def Let_def eval_nat_numeral)
  have u: "[0..<2] = [0, Suc 0]" by (simp add: eval_nat_numeral)
  have kl: "obi_kl_divergence P Q 2 = 5 / 3 - log 2 3"
    by (simp add: obi_kl_divergence_def u P_def Q_def OBI_EPSILON_MIN_def Let_def log2_thirds
        field_simps)
  have kl0: "\<not> obi_kl_divergence P Q 2 < 0"
    using log2_3_less by (simp add: kl)
  have en: "fold (\<lambda>i (entropy_i, entropy_j).
                   (if P ! i > 0 then entropy_i - P ! i * log 2 (P ! i) else entropy_i,
                    if Q ! i > 0 then entropy_j - Q ! i * log 2 (Q ! i) else entropy_j))
             [0..<2] (0, 0) = (log 2 3 - 2 / 3, 1)"
    by (simp add: u P_def Q_def log2_thirds field_simps)
  have c: "obi_calculate_traversal_cost P Q 2 0 1 = log 2 3 - 5 / 3"
    using kl0
    by (simp add: obi_calculate_traversal_cost_def Let_def obi_entropy_change_def en)
  have neg: "log 2 3 - 5 / 3 < (0 :: real)" using log2_3_less by simp
  have v: "validate_mathematical_properties
     \<lparr>v_context = \<lparr>zero_trust_enforced = True, canonical_only = True, alpha = 0,
                   beta = 1, epsilon_min = OBI_EPSILON_MIN\<rparr>,
      v_initialized = True, validation_count = 0\<rparr> b = (OBI_ERROR_NUMERICAL_INSTABILITY, b)"
    using neg by (simp add: validate_mathematical_properties_def d c)
  have "\<not> double_greater (double_add (Finite 0) (Finite 1)) (round_double 1.0001)"
    unfolding double_add.simps greater_1_0001_iff by simp
  then have cr: "obi_validator_create True
     \<lparr>zero_trust_enforced = True, canonical_only = True, alpha = Finite 0, beta = Finite 1,
      epsilon_min = round_double OBI_EPSILON_MIN\<rparr> =
     (OBI_SUCCESS,
      Some \<lparr>v_context = \<lparr>zero_trust_enforced = True, canonical_only = True,
                          alpha = Finite 0, beta = Finite 1,
                          epsilon_min = round_double OBI_EPSILON_MIN\<rparr>,
            v_initialized = True, validation_count = 0\<rparr>)"
    by (simp add: obi_validator_create_def)
  show ?thesis
    using cr d c neg v unfolding b_def P_def Q_def by (intro conjI)
qed

section \<open>Audit log\<close>

lemma checksum_ignores_compliance_level:
  "calculate_entry_checksum (entry\<lparr>compliance_level := tag\<rparr>) = calculate_entry_checksum entry"
  by (simp add: calculate_entry_checksum_def)

lemma checksum_ignores_checksum:
  "calculate_entry_checksum (entry\<lparr>checksum := c\<rparr>) = calculate_entry_checksum entry"
  by (simp add: calculate_entry_checksum_def)

lemma sample_checksum:
  "calculate_entry_checksum
     \<lparr>timestamp = 1700000000, operation = ''AUDIT_INIT'', hash_reference = ''NULL_HASH'',
      context = ''SESSION_OBI_6553F100_20AA145A_SEQ_1'',
      compliance_level = ''NASA-STD-8739.8'', sequence_number = 1,
      checksum = 0\<rparr> = 0xE1FF0830"
  by code_simp

lemma sample_checksum_tampered_operation:
  "calculate_entry_checksum
     \<lparr>timestamp = 1700000000, operation = ''AUDIT_INIU'', hash_reference = ''NULL_HASH'',
      context = ''SESSION_OBI_6553F100_20AA145A_SEQ_1'',
      compliance_level = ''NASA-STD-8739.8'', sequence_number = 1,
      checksum = 0\<rparr> = 0xE0FF0FC3"
  by code_simp

text \<open>
  Claim C5 fails on the code.  \<open>calculate_entry_checksum\<close> hashes the time stamp, the
  operation, the hash reference, the context and the sequence number, and leaves the
  compliance tag out.  The entry below is the first line of a session opened at time
  1700000000, with the checksum \<open>E1FF0830\<close> that the code stores.  With the last byte of
  its compliance tag changed from \<open>8\<close> to \<open>9\<close> the log still verifies with
  \<open>OBI_SUCCESS\<close> and no line is reported, whereas a change of one byte of the operation
  is reported for line 1 with \<open>VALIDATION_FAILED\<close>.
\<close>

theorem audit_compliance_tamper_undetected:
  "calculate_entry_checksum
     \<lparr>timestamp = 1700000000, operation = ''AUDIT_INIT'', hash_reference = ''NULL_HASH'',
      context = ''SESSION_OBI_6553F100_20AA145A_SEQ_1'',
      compliance_level = ''NASA-STD-8739.8'', sequence_number = 1,
      checksum = 0\<rparr> = 0xE1FF0830 \<and>
   obi_audit_verify_integrity (Some [written_line
     \<lparr>timestamp = 1700000000, operation = ''AUDIT_INIT'', hash_reference = ''NULL_HASH'',
      context = ''SESSION_OBI_6553F100_20AA145A_SEQ_1'',
      compliance_level = ''NASA-STD-8739.8'', sequence_number = 1,
      checksum = 0xE1FF0830\<rparr>]) = (OBI_SUCCESS, []) \<and>
   obi_audit_verify_integrity (Some [written_line
     \<lparr>timestamp = 1700000000, operation = ''AUDIT_INIT'', hash_reference = ''NULL_HASH'',
      context = ''SESSION_OBI_6553F100_20AA145A_SEQ_1'',
      compliance_level = ''NASA-STD-8739.9'', sequence_number = 1,
      checksum = 0xE1FF0830\<rparr>]) = (OBI_SUCCESS, []) \<and>
   obi_audit_verify_integrity (Some [written_line
     \<lparr>timestamp = 1700000000, operation = ''AUDIT_INIU'', hash_reference = ''NULL_HASH'',
      context = ''SESSION_OBI_6553F100_20AA145A_SEQ_1'',
      compliance_level = ''NASA-STD-8739.8'', sequence_number = 1,
      checksum = 0xE1FF0830\<rparr>]) = (OBI_ERROR_VALIDATION_FAILED, [1])"
proof -
  define e where "e = \<lparr>timestamp = 1700000000, operation = ''AUDIT_INIT'',
      hash_reference = ''NULL_HASH'', context = ''SESSION_OBI_6553F100_20AA145A_SEQ_1'',
      compliance_level = ''NASA-STD-8739.8'', sequence_number = 1,
      checksum = (0 :: 32 word)\<rparr>"
  have c: "calculate_entry_checksum e = 0xE1FF0830"
    unfolding e_def by (rule sample_checksum)
  have t: "calculate_entry_checksum (e\<lparr>operation := ''AUDIT_INIU''\<rparr>) = 0xE0FF0FC3"
    using sample_checksum_tampered_operation by (simp add: e_def)
  have v1: "obi_audit_verify_integrity (Some [written_line (e\<lparr>checksum := 0xE1FF0830\<rparr>)]) =
            (OBI_SUCCESS, [])"
    by (simp add: obi_audit_verify_integrity_def written_line_def Let_def c
        checksum_ignores_checksum)
  have v2: "obi_audit_verify_integrity (Some [written_line
              (e\<lparr>compliance_level := ''NASA-STD-8739.9'', checksum := 0xE1FF0830\<rparr>)]) =
            (OBI_SUCCESS, [])"
    by (simp add: obi_audit_verify_integrity_def written_line_def Let_def c
        checksum_ignores_compliance_level checksum_ignores_checksum)
  have v3: "obi_audit_verify_integrity (Some [written_line
              (e\<lparr>operation := ''AUDIT_INIU'', checksum := 0xE1FF0830\<rparr>)]) =
            (OBI_ERROR_VALIDATION_FAILED, [1])"
    by (simp add: obi_audit_verify_integrity_def written_line_def Let_def t
        checksum_ignores_checksum)
  show ?thesis
    using c v1 v2 v3 by (simp add: e_def)
qed

end
